theory Spec2Isabelle
  imports Main "HOL-Library.Sublist"
begin

section \<open>CFML: the line grammar and the block store of \<^verbatim>\<open>pycfml/cfml.py\<close>\<close>

text \<open>
  The class \<^verbatim>\<open>CustomFormatDB\<close> keeps one attribute, \<^verbatim>\<open>self.blocks\<close>, a list of
  dictionaries \<^verbatim>\<open>{date, messages}\<close>. Every method below is a function of that list; a
  method that mutates it returns the list after the call together with its outcome, so
  that what an exception leaves behind is part of the model.

  Python strings are modelled as \<^typ>\<open>string\<close>: a \<^typ>\<open>char\<close> is read as the code
  point of the same number (0 to 255). On that range \<^verbatim>\<open>str.isspace\<close>, the pattern
  classes \<^verbatim>\<open>\s\<close> and \<^verbatim>\<open>\d\<close>, and the line boundaries of \<^verbatim>\<open>str.splitlines\<close> are the
  finite sets written out below.
\<close>

subsection \<open>Characters\<close>

definition LF :: char where
  "LF = CHR 0x0A"

definition CR :: char where
  "CR = CHR 0x0D"

text \<open>\<^verbatim>\<open>str.isspace\<close>, which is also the class \<^verbatim>\<open>\s\<close> of a \<^verbatim>\<open>str\<close> pattern.\<close>

definition is_space :: "char \<Rightarrow> bool" where
  "is_space c \<longleftrightarrow>
     c \<in> {CHR 0x09, CHR 0x0A, CHR 0x0B, CHR 0x0C, CHR 0x0D,
          CHR 0x1C, CHR 0x1D, CHR 0x1E, CHR 0x1F, CHR 0x20, CHR 0x85, CHR 0xA0}"

text \<open>The characters at which \<^verbatim>\<open>str.splitlines\<close> ends a line.\<close>

definition is_linebreak :: "char \<Rightarrow> bool" where
  "is_linebreak c \<longleftrightarrow>
     c \<in> {CHR 0x0A, CHR 0x0B, CHR 0x0C, CHR 0x0D, CHR 0x1C, CHR 0x1D, CHR 0x1E, CHR 0x85}"

text \<open>The class \<^verbatim>\<open>\d\<close>: the code points of \<^verbatim>\<open>0\<close> to \<^verbatim>\<open>9\<close>.\<close>

definition is_digit :: "char \<Rightarrow> bool" where
  "is_digit c \<longleftrightarrow> 48 \<le> (of_char c :: nat) \<and> (of_char c :: nat) \<le> 57"

subsection \<open>Line preprocessing\<close>

text \<open>
  \<^verbatim>\<open>text.splitlines()\<close>: a line ends at a line boundary, \<^verbatim>\<open>\r\n\<close> counts as one
  boundary, and no empty last line is produced when the text ends with a boundary.
\<close>

function splitlines :: "string \<Rightarrow> string list" where
  "splitlines [] = []"
| "splitlines (c # cs) =
     (if is_linebreak c then
        [] # splitlines (if c = CR \<and> take 1 cs = [LF] then drop 1 cs else cs)
      else (case splitlines cs of
              [] \<Rightarrow> [[c]]
            | l # ls \<Rightarrow> (c # l) # ls))"
  by pat_completeness auto
termination
  by (relation "measure length") auto

text \<open>\<^verbatim>\<open>line.strip()\<close>: leading and trailing whitespace removed.\<close>

definition strip :: "string \<Rightarrow> string" where
  "strip s = rev (dropWhile is_space (rev (dropWhile is_space s)))"

text \<open>\<^verbatim>\<open>[line.strip() for line in text.splitlines() if line.strip()]\<close>\<close>

definition lines_of :: "string \<Rightarrow> string list" where
  "lines_of text = map strip (filter (\<lambda>line. strip line \<noteq> []) (splitlines text))"

subsection \<open>The three line patterns\<close>

text \<open>
  \<^verbatim>\<open>re.match\<close> is a backtracking search. Each piece of a pattern is a function of the
  rest of the pattern (the continuation \<open>k\<close>) and the rest of the line; the result is
  the first match in the order in which the search tries the alternatives.
\<close>

text \<open>A run of literal characters.\<close>

definition lit :: "string \<Rightarrow> (string \<Rightarrow> 'a option) \<Rightarrow> string \<Rightarrow> 'a option" where
  "lit p k s = (if prefix p s then k (drop (length p) s) else None)"

text \<open>One character of a class.\<close>

definition cls :: "(char \<Rightarrow> bool) \<Rightarrow> (string \<Rightarrow> 'a option) \<Rightarrow> string \<Rightarrow> 'a option" where
  "cls P k s = (case s of [] \<Rightarrow> None | c # cs \<Rightarrow> if P c then k cs else None)"

text \<open>
  \<^verbatim>\<open>$\<close> without the MULTILINE flag: the end of the string, or just before a newline
  that is the last character.
\<close>

definition eos :: "'a \<Rightarrow> string \<Rightarrow> 'a option" where
  "eos r s = (if s = [] \<or> s = [LF] then Some r else None)"

text \<open>
  The group \<^verbatim>\<open>(.*?)\<close>: the dot matches every character but the newline, and the
  non-greedy star tries the rest of the pattern before it takes one more character.
  \<open>acc\<close> is what the group has taken so far.
\<close>

fun lazy_dots :: "(string \<Rightarrow> string \<Rightarrow> 'a option) \<Rightarrow> string \<Rightarrow> string \<Rightarrow> 'a option" where
  "lazy_dots k acc [] = k acc []"
| "lazy_dots k acc (c # cs) =
     (case k acc (c # cs) of
        Some r \<Rightarrow> Some r
      | None \<Rightarrow> if c = LF then None else lazy_dots k (acc @ [c]) cs)"

text \<open>The group \<^verbatim>\<open>(.+?)\<close>: one character first, then as \<^verbatim>\<open>(.*?)\<close>.\<close>

definition lazy_dots1 :: "(string \<Rightarrow> string \<Rightarrow> 'a option) \<Rightarrow> string \<Rightarrow> 'a option" where
  "lazy_dots1 k s = (case s of [] \<Rightarrow> None | c # cs \<Rightarrow> if c = LF then None else lazy_dots k [c] cs)"

text \<open>The group \<^verbatim>\<open>(\d{2}:\d{2}:\d{2})\<close>: eight characters of a fixed shape.\<close>

definition time_shape :: "string \<Rightarrow> bool" where
  "time_shape t \<longleftrightarrow>
     length t = 8 \<and> is_digit (t ! 0) \<and> is_digit (t ! 1) \<and> t ! 2 = CHR '':'' \<and>
     is_digit (t ! 3) \<and> is_digit (t ! 4) \<and> t ! 5 = CHR '':'' \<and>
     is_digit (t ! 6) \<and> is_digit (t ! 7)"

definition time_group :: "(string \<Rightarrow> string \<Rightarrow> 'a option) \<Rightarrow> string \<Rightarrow> 'a option" where
  "time_group k s = (if time_shape (take 8 s) then k (take 8 s) (drop 8 s) else None)"

record message =
  time :: string
  receiver :: string
  sender :: string
  content :: string

record block =
  date :: string
  messages :: "message list"

type_synonym store = "block list"

text \<open>\<^verbatim>\<open>HEADER_RE.match(line)\<close>; the result is the group \<^verbatim>\<open>date\<close>.\<close>

definition HEADER_RE_match :: "string \<Rightarrow> string option" where
  "HEADER_RE_match line =
     lit ''#$* date -* ''
       (lazy_dots (\<lambda>d. lit '' *-'' (cls is_space (lit ''#$*'' (eos d)))) []) line"

text \<open>\<^verbatim>\<open>MESSAGE_RE.match(line)\<close>; the result holds the four named groups.\<close>

definition MESSAGE_RE_match :: "string \<Rightarrow> message option" where
  "MESSAGE_RE_match line =
     lit ''@# '' (time_group (\<lambda>t.
     lit '' #@ $# '' (lazy_dots1 (\<lambda>r.
     lit '' #$ *# '' (lazy_dots1 (\<lambda>s.
     lit '' #* content -*&^# '' (lazy_dots1 (\<lambda>c.
     lit '' #^&*-''
       (eos \<lparr>time = t, receiver = r, sender = s, content = c\<rparr>))))))))) line"

text \<open>\<^verbatim>\<open>END_RE.match(line)\<close>, as a truth value.\<close>

definition END_RE_match :: "string \<Rightarrow> bool" where
  "END_RE_match line \<longleftrightarrow> lit ''*$# end *$#'' (eos ()) line \<noteq> None"

subsection \<open>Errors\<close>

text \<open>
  Every failure of the class is a \<^verbatim>\<open>FormatError\<close>; the constructors are its raise
  sites, with the value the message is formatted from.
\<close>

datatype error =
    NewDateBeforeEnd
  | MessageBeforeHeader
  | MissingField string
  | EndWithoutDate
  | InvalidLine string
  | MissingEnd
  | MissingRequiredField string
  | InvalidIndex int
  | NoSuchDate string
  | InvalidEditField string
  | EmptyValue string

subsection \<open>\<^verbatim>\<open>load\<close>\<close>

text \<open>
  The check of the four groups after a message line has matched: the first of
  \<^verbatim>\<open>("time", "receiver", "sender", "content")\<close> whose group is empty.
\<close>

definition missing_field :: "message \<Rightarrow> string option" where
  "missing_field m =
     (if time m = [] then Some ''time''
      else if receiver m = [] then Some ''receiver''
      else if sender m = [] then Some ''sender''
      else if content m = [] then Some ''content''
      else None)"

text \<open>
  The loop over the lines. \<open>cur\<close> is \<^verbatim>\<open>current_date\<close>, \<open>msgs\<close> is
  \<^verbatim>\<open>current_messages\<close>, \<open>blocks\<close> is \<^verbatim>\<open>self.blocks\<close>. A raise ends the loop with
  \<^verbatim>\<open>self.blocks\<close> as it is at that moment.
\<close>

fun load_loop ::
  "string list \<Rightarrow> string option \<Rightarrow> message list \<Rightarrow> store \<Rightarrow> (error + unit) \<times> store" where
  "load_loop [] cur msgs blocks =
     (if cur \<noteq> None then (Inl MissingEnd, blocks) else (Inr (), blocks))"
| "load_loop (line # rest) cur msgs blocks =
     (case HEADER_RE_match line of
        Some d \<Rightarrow>
          if cur \<noteq> None then (Inl NewDateBeforeEnd, blocks)
          else load_loop rest (Some d) [] blocks
      | None \<Rightarrow>
         (case MESSAGE_RE_match line of
            Some m \<Rightarrow>
              if cur = None then (Inl MessageBeforeHeader, blocks)
              else (case missing_field m of
                      Some key \<Rightarrow> (Inl (MissingField key), blocks)
                    | None \<Rightarrow> load_loop rest cur (msgs @ [m]) blocks)
          | None \<Rightarrow>
              if END_RE_match line then
                (case cur of
                   None \<Rightarrow> (Inl EndWithoutDate, blocks)
                 | Some d \<Rightarrow>
                     load_loop rest None [] (blocks @ [\<lparr>date = d, messages = msgs\<rparr>]))
              else (Inl (InvalidLine line), blocks)))"

text \<open>
  \<^verbatim>\<open>load\<close> clears \<^verbatim>\<open>self.blocks\<close> first, whatever it held, and then runs the loop.
\<close>

definition load :: "string \<Rightarrow> store \<Rightarrow> (error + unit) \<times> store" where
  "load text blocks = load_loop (lines_of text) None [] []"

subsection \<open>\<^verbatim>\<open>dumps\<close>\<close>

definition header_line :: "string \<Rightarrow> string" where
  "header_line d = ''#$* date -* '' @ d @ '' *- #$*''"

definition message_line :: "message \<Rightarrow> string" where
  "message_line m =
     ''@# '' @ time m @ '' #@ $# '' @ receiver m @ '' #$ *# '' @ sender m @
     '' #* content -*&^# '' @ content m @ '' #^&*-''"

definition end_line :: string where
  "end_line = ''*$# end *$#''"

definition block_lines :: "block \<Rightarrow> string list" where
  "block_lines b = header_line (date b) # map message_line (messages b) @ [end_line]"

text \<open>\<^verbatim>\<open>"\n".join(output)\<close>\<close>

fun join_lines :: "string list \<Rightarrow> string" where
  "join_lines [] = []"
| "join_lines [l] = l"
| "join_lines (l # l' # ls) = l @ LF # join_lines (l' # ls)"

definition dumps :: "store \<Rightarrow> string" where
  "dumps blocks = join_lines (concat (map block_lines blocks))"

subsection \<open>Data management\<close>

text \<open>
  The first loop of \<^verbatim>\<open>add_message\<close>, over the items of the dictionary of its five
  arguments: the name of the first one whose value is empty.
\<close>

fun first_empty :: "(string \<times> string) list \<Rightarrow> string option" where
  "first_empty [] = None"
| "first_empty ((field, v) # rest) = (if v = [] then Some field else first_empty rest)"

text \<open>
  The second loop: the first block with the date gets the message appended, and the
  method returns; \<open>None\<close> when the loop ends without having found one.
\<close>

fun append_to_block :: "string \<Rightarrow> message \<Rightarrow> store \<Rightarrow> store option" where
  "append_to_block d m [] = None"
| "append_to_block d m (b # bs) =
     (if date b = d then Some (b\<lparr>messages := messages b @ [m]\<rparr> # bs)
      else map_option ((#) b) (append_to_block d m bs))"

definition add_message ::
  "string \<Rightarrow> string \<Rightarrow> string \<Rightarrow> string \<Rightarrow> string \<Rightarrow> store \<Rightarrow> (error + unit) \<times> store" where
  "add_message d t r s c blocks =
     (case first_empty [(''date'', d), (''time'', t), (''receiver'', r), (''sender'', s),
                        (''content'', c)] of
        Some field \<Rightarrow> (Inl (MissingRequiredField field), blocks)
      | None \<Rightarrow>
          (let m = \<lparr>time = t, receiver = r, sender = s, content = c\<rparr> in
           case append_to_block d m blocks of
             Some blocks' \<Rightarrow> (Inr (), blocks')
           | None \<Rightarrow> (Inr (), blocks @ [\<lparr>date = d, messages = [m]\<rparr>])))"

definition delete_date :: "string \<Rightarrow> store \<Rightarrow> (error + unit) \<times> store" where
  "delete_date d blocks = (Inr (), filter (\<lambda>b. date b \<noteq> d) blocks)"

text \<open>
  \<^verbatim>\<open>index\<close> is a Python \<^verbatim>\<open>int\<close>; \<^verbatim>\<open>pop(index)\<close> is reached only with
  \<^verbatim>\<open>0 <= index < len(...)\<close>.
\<close>

fun delete_message :: "string \<Rightarrow> int \<Rightarrow> store \<Rightarrow> (error + unit) \<times> store" where
  "delete_message d i [] = (Inl (NoSuchDate d), [])"
| "delete_message d i (b # bs) =
     (if date b = d then
        if 0 \<le> i \<and> i < int (length (messages b)) then
          (Inr (), b\<lparr>messages := take (nat i) (messages b) @ drop (Suc (nat i)) (messages b)\<rparr> # bs)
        else (Inl (InvalidIndex i), b # bs)
      else (case delete_message d i bs of (res, bs') \<Rightarrow> (res, b # bs')))"

text \<open>\<^verbatim>\<open>msg[key] = updates[key]\<close>, for a key that has passed the check of its name.\<close>

definition set_field :: "string \<Rightarrow> string \<Rightarrow> message \<Rightarrow> message" where
  "set_field key v m =
     (if key = ''time'' then m\<lparr>time := v\<rparr>
      else if key = ''receiver'' then m\<lparr>receiver := v\<rparr>
      else if key = ''sender'' then m\<lparr>sender := v\<rparr>
      else m\<lparr>content := v\<rparr>)"

definition get_field :: "string \<Rightarrow> message \<Rightarrow> string" where
  "get_field key m =
     (if key = ''time'' then time m
      else if key = ''receiver'' then receiver m
      else if key = ''sender'' then sender m
      else content m)"

text \<open>
  The loop \<^verbatim>\<open>for key in updates\<close>: \<open>updates\<close> is the dictionary as the list of its
  items in iteration order. Each key is checked and then written at once, so a raise
  leaves the message with the writes made before it.
\<close>

fun apply_updates :: "(string \<times> string) list \<Rightarrow> message \<Rightarrow> (error + unit) \<times> message" where
  "apply_updates [] m = (Inr (), m)"
| "apply_updates ((key, v) # rest) m =
     (if key \<notin> set [''time'', ''receiver'', ''sender'', ''content'']
        then (Inl (InvalidEditField key), m)
      else if v = [] then (Inl (EmptyValue key), m)
      else apply_updates rest (set_field key v m))"

fun edit_message ::
  "string \<Rightarrow> int \<Rightarrow> (string \<times> string) list \<Rightarrow> store \<Rightarrow> (error + unit) \<times> store" where
  "edit_message d i updates [] = (Inl (NoSuchDate d), [])"
| "edit_message d i updates (b # bs) =
     (if date b = d then
        if 0 \<le> i \<and> i < int (length (messages b)) then
          (case apply_updates updates (messages b ! nat i) of
             (res, m') \<Rightarrow> (res, b\<lparr>messages := (messages b)[nat i := m']\<rparr> # bs))
        else (Inl (InvalidIndex i), b # bs)
      else (case edit_message d i updates bs of (res, bs') \<Rightarrow> (res, b # bs')))"

definition list_dates :: "store \<Rightarrow> string list" where
  "list_dates blocks = map date blocks"

fun list_messages :: "string \<Rightarrow> store \<Rightarrow> error + message list" where
  "list_messages d [] = Inl (NoSuchDate d)"
| "list_messages d (b # bs) = (if date b = d then Inr (messages b) else list_messages d bs)"

subsection \<open>\<^verbatim>\<open>search_messages\<close>\<close>

text \<open>\<^verbatim>\<open>text in content\<close>: the substring test.\<close>

fun str_contains :: "string \<Rightarrow> string \<Rightarrow> bool" where
  "str_contains [] t \<longleftrightarrow> t = []"
| "str_contains (c # cs) t \<longleftrightarrow> prefix t (c # cs) \<or> str_contains cs t"

text \<open>One result: \<^verbatim>\<open>{"date": block["date"], **msg}\<close>.\<close>

record hit =
  hit_date :: string
  hit_time :: string
  hit_receiver :: string
  hit_sender :: string
  hit_content :: string

definition annotate :: "string \<Rightarrow> message \<Rightarrow> hit" where
  "annotate d m =
     \<lparr>hit_date = d, hit_time = time m, hit_receiver = receiver m,
      hit_sender = sender m, hit_content = content m\<rparr>"

text \<open>
  A filter is \<^verbatim>\<open>None\<close> or a string. \<^verbatim>\<open>if sender and msg["sender"] != sender\<close>: the
  test of a filter that is \<^verbatim>\<open>None\<close> or the empty string is false.
\<close>

definition differs :: "string option \<Rightarrow> string \<Rightarrow> bool" where
  "differs f x = (case f of None \<Rightarrow> False | Some v \<Rightarrow> v \<noteq> [] \<and> x \<noteq> v)"

definition lacks :: "string option \<Rightarrow> string \<Rightarrow> bool" where
  "lacks f x = (case f of None \<Rightarrow> False | Some v \<Rightarrow> v \<noteq> [] \<and> \<not> str_contains x v)"

fun search_block ::
  "string option \<Rightarrow> string option \<Rightarrow> string option \<Rightarrow> string \<Rightarrow> message list \<Rightarrow>
   hit list \<Rightarrow> hit list" where
  "search_block sf rf tf d [] results = results"
| "search_block sf rf tf d (m # ms) results =
     (if differs sf (sender m) then search_block sf rf tf d ms results
      else if differs rf (receiver m) then search_block sf rf tf d ms results
      else if lacks tf (content m) then search_block sf rf tf d ms results
      else search_block sf rf tf d ms (results @ [annotate d m]))"

fun search_blocks ::
  "string option \<Rightarrow> string option \<Rightarrow> string option \<Rightarrow> store \<Rightarrow> hit list \<Rightarrow> hit list" where
  "search_blocks sf rf tf [] results = results"
| "search_blocks sf rf tf (b # bs) results =
     search_blocks sf rf tf bs (search_block sf rf tf (date b) (messages b) results)"

definition search_messages ::
  "string option \<Rightarrow> string option \<Rightarrow> string option \<Rightarrow> store \<Rightarrow> hit list" where
  "search_messages sf rf tf blocks = search_blocks sf rf tf blocks []"

subsection \<open>Sequences of calls\<close>

text \<open>
  A call of one of the mutating methods, and a caller that makes a sequence of calls on
  one object, going on after a \<^verbatim>\<open>FormatError\<close> with the object as the failed call
  left it.
\<close>

datatype call =
    Load string
  | AddMessage string string string string string
  | DeleteDate string
  | DeleteMessage string int
  | EditMessage string int "(string \<times> string) list"

fun perform :: "call \<Rightarrow> store \<Rightarrow> (error + unit) \<times> store" where
  "perform (Load text) blocks = load text blocks"
| "perform (AddMessage d t r s c) blocks = add_message d t r s c blocks"
| "perform (DeleteDate d) blocks = delete_date d blocks"
| "perform (DeleteMessage d i) blocks = delete_message d i blocks"
| "perform (EditMessage d i updates) blocks = edit_message d i updates blocks"

fun run :: "call list \<Rightarrow> store \<Rightarrow> store" where
  "run [] blocks = blocks"
| "run (c # cs) blocks = run cs (snd (perform c blocks))"

subsection \<open>Names and examples used in the statements\<close>

text \<open>The keys that \<^verbatim>\<open>edit_message\<close> accepts.\<close>

definition field_names :: "string set" where
  "field_names = {''time'', ''receiver'', ''sender'', ''content''}"

text \<open>A store of two blocks, the first without messages.\<close>

definition store1 :: store where
  "store1 =
     [\<lparr>date = ''d1'', messages = []\<rparr>,
      \<lparr>date = ''d2'', messages =
         [\<lparr>time = ''t'', receiver = ''r'', sender = ''s'', content = ''c''\<rparr>]\<rparr>]"

text \<open>
  The messages \<^verbatim>\<open>search_messages\<close> is to return: each filter that is given, and is
  not the empty string, holds of the message (\<open>sublist v x\<close>: \<open>v\<close> occurs in \<open>x\<close> as
  a contiguous run).
\<close>

definition selected :: "string option \<Rightarrow> string option \<Rightarrow> string option \<Rightarrow> message \<Rightarrow> bool" where
  "selected sf rf tf m \<longleftrightarrow>
     (case sf of None \<Rightarrow> True | Some v \<Rightarrow> v \<noteq> [] \<longrightarrow> sender m = v) \<and>
     (case rf of None \<Rightarrow> True | Some v \<Rightarrow> v \<noteq> [] \<longrightarrow> receiver m = v) \<and>
     (case tf of None \<Rightarrow> True | Some v \<Rightarrow> sublist v (content m))"

text \<open>A store of two blocks with messages of two senders.\<close>

definition store2 :: store where
  "store2 =
     [\<lparr>date = ''d1'', messages =
         [\<lparr>time = ''09:00:00'', receiver = ''Bob'', sender = ''Alice'', content = ''hello''\<rparr>,
          \<lparr>time = ''09:01:00'', receiver = ''Alice'', sender = ''Bob'', content = ''hi''\<rparr>]\<rparr>,
      \<lparr>date = ''d2'', messages =
         [\<lparr>time = ''10:00:00'', receiver = ''Bob'', sender = ''Alice'', content = ''bye''\<rparr>]\<rparr>]"

text \<open>A text of one complete block followed by a line of no pattern.\<close>

definition broken_text :: string where
  "broken_text = ''#$* date -* d *- #$*'' @ [LF] @ ''*$# end *$#'' @ [LF] @ ''x''"

text \<open>A text of two blocks with the same date.\<close>

definition repeated_date_text :: string where
  "repeated_date_text =
     ''#$* date -* d *- #$*'' @ [LF] @ ''*$# end *$#'' @ [LF] @
     ''#$* date -* d *- #$*'' @ [LF] @ ''*$# end *$#''"

text \<open>A text whose header has nothing between the two literal parts of the pattern.\<close>

definition empty_date_text :: string where
  "empty_date_text = ''#$* date -*  *- #$*'' @ [LF] @ ''*$# end *$#''"

text \<open>A string without a line boundary.\<close>

definition plain :: "string \<Rightarrow> bool" where
  "plain s \<longleftrightarrow> (\<forall>c\<in>set s. \<not> is_linebreak c)"

text \<open>
  A string that \<^verbatim>\<open>splitlines\<close> and \<^verbatim>\<open>strip\<close> give back as it is when it is one of the
  lines joined by \<^verbatim>\<open>dumps\<close>.
\<close>

definition tidy :: "string \<Rightarrow> bool" where
  "tidy l \<longleftrightarrow> l \<noteq> [] \<and> plain l \<and> \<not> is_space (hd l) \<and> \<not> is_space (last l)"

text \<open>
  A message whose line, as \<^verbatim>\<open>dumps\<close> writes it, is one line that the message pattern
  reads back as the same message; a block of such messages with a date that stays on one
  line.
\<close>

definition good_message :: "message \<Rightarrow> bool" where
  "good_message m \<longleftrightarrow> MESSAGE_RE_match (message_line m) = Some m \<and> plain (message_line m)"

definition good_block :: "block \<Rightarrow> bool" where
  "good_block b \<longleftrightarrow> plain (date b) \<and> (\<forall>m\<in>set (messages b). good_message m)"

text \<open>
  A text with spaces around its lines, a tab inside the header, an empty line and several
  kinds of line ends.
\<close>

definition spaced_text :: string where
  "spaced_text =
     ''  #$* date -* 2024-01-01 *-'' @ [CHR 0x09] @ ''#$*'' @ [CR, LF, LF] @
     ''@# 09:00:00 #@ $# Bob #$ *# Alice #* content -*&^# hello #^&*-  '' @ [LF] @
     ''*$# end *$#'' @ [LF]"

text \<open>
  A call that keeps the dates of a store distinct when they are: any call of the four
  methods that edit the store, and a \<^verbatim>\<open>load\<close> of a text for which the blocks that
  \<^verbatim>\<open>load\<close> leaves in the store have distinct dates (\<^verbatim>\<open>load\<close> does not look at what
  the store held).
\<close>

fun load_dates_distinct :: "call \<Rightarrow> bool" where
  "load_dates_distinct (Load text) \<longleftrightarrow> distinct (list_dates (snd (load text [])))"
| "load_dates_distinct c \<longleftrightarrow> True"

text \<open>
  A sequence of calls of the five methods: a \<^verbatim>\<open>load\<close> that succeeds, one that fails and
  leaves a block, and calls of each of the other four.
\<close>

definition calls1 :: "call list" where
  "calls1 =
     [Load spaced_text,
      AddMessage ''d0'' ''08:00:00'' ''Bob'' ''Alice'' ''early'',
      Load broken_text,
      AddMessage ''d'' ''09:00:00'' ''Bob'' ''Alice'' ''hello'',
      AddMessage ''d2'' ''09:00:00'' ''Bob'' ''Alice'' ''hello'',
      AddMessage ''d'' ''10:00:00'' ''Alice'' ''Bob'' ''hi'',
      EditMessage ''d'' 0 [(''content'', ''bye'')],
      DeleteMessage ''d'' 1,
      DeleteDate ''d3'']"

text \<open>
  The delimiter \<open>delim\<close> that follows a field \<open>x\<close> in a message line does not begin
  inside the field: at no position from the second character of \<open>x\<close> on does
  \<open>delim\<close> start in \<open>x\<close> followed by \<open>delim\<close>. (A non-greedy group ends at the first
  place where the rest of the pattern matches.)
\<close>

definition clear_of :: "string \<Rightarrow> string \<Rightarrow> bool" where
  "clear_of delim x \<longleftrightarrow> (\<forall>i\<in>{1..<length x}. \<not> prefix delim (drop i x @ delim))"

text \<open>
  Arguments of \<^verbatim>\<open>add_message\<close> that \<^verbatim>\<open>load\<close> reads back from the text of \<^verbatim>\<open>dumps\<close>: no
  line boundary in any of them, a time of the shape of the pattern, and a receiver and a
  sender in which the delimiter after them does not begin.
\<close>

definition dumpable :: "string \<Rightarrow> string \<Rightarrow> string \<Rightarrow> string \<Rightarrow> string \<Rightarrow> bool" where
  "dumpable d t r s c \<longleftrightarrow>
     plain d \<and> time_shape t \<and>
     plain r \<and> clear_of '' #$ *# '' r \<and>
     plain s \<and> clear_of '' #* content -*&^# '' s \<and>
     plain c"

text \<open>A call of \<^verbatim>\<open>add_message\<close> with five non-empty arguments that are \<open>dumpable\<close>.\<close>

fun addable :: "call \<Rightarrow> bool" where
  "addable (AddMessage d t r s c) \<longleftrightarrow>
     d \<noteq> [] \<and> t \<noteq> [] \<and> r \<noteq> [] \<and> s \<noteq> [] \<and> c \<noteq> [] \<and> dumpable d t r s c"
| "addable call \<longleftrightarrow> False"

text \<open>Three such calls, two of them with the same date.\<close>

definition calls2 :: "call list" where
  "calls2 =
     [AddMessage ''d1'' ''09:00:00'' ''Bob'' ''Alice'' ''hello #1'',
      AddMessage ''d2'' ''09:30:00'' ''Bob'' ''Carol'' ''hi'',
      AddMessage ''d1'' ''10:00:00'' ''Alice'' ''Bob'' ''bye'']"

section \<open>Properties\<close>

subsection \<open>What a match of a pattern says about the line\<close>

lemma lit_Some:
  assumes "lit p k s = Some r"
  obtains rest where "s = p @ rest" and "k rest = Some r"
  using assms by (auto simp: lit_def prefix_def split: if_splits)

lemma lit_append: "lit p k (p @ rest) = k rest"
  by (simp add: lit_def)

lemma cls_Some:
  assumes "cls P k s = Some r"
  obtains c cs where "s = c # cs" and "P c" and "k cs = Some r"
  using assms by (auto simp: cls_def split: list.splits if_splits)

lemma eos_Some:
  assumes "eos x s = Some r"
  shows "r = x \<and> (s = [] \<or> s = [LF])"
  using assms by (auto simp: eos_def split: if_splits)

lemma time_group_Some:
  assumes "time_group k s = Some r"
  obtains t rest where "s = t @ rest" and "time_shape t" and "k t rest = Some r"
proof -
  from assms have "time_shape (take 8 s)" and "k (take 8 s) (drop 8 s) = Some r"
    by (auto simp: time_group_def split: if_splits)
  moreover have "s = take 8 s @ drop 8 s" by simp
  ultimately show thesis
    using that by blast
qed

lemma time_group_append: "time_shape t \<Longrightarrow> time_group k (t @ rest) = k t rest"
  by (simp add: time_group_def time_shape_def)

lemma lazy_dots_Some:
  "lazy_dots k acc s = Some r \<Longrightarrow> \<exists>p q. s = p @ q \<and> LF \<notin> set p \<and> k (acc @ p) q = Some r"
proof (induction s arbitrary: acc)
  case Nil
  then show ?case by simp
next
  case (Cons c cs)
  show ?case
  proof (cases "k acc (c # cs)")
    case (Some r')
    with Cons.prems have "k (acc @ []) (c # cs) = Some r" by simp
    then show ?thesis
      by (metis append_Nil empty_iff list.set(1))
  next
    case None
    with Cons.prems have c: "c \<noteq> LF" and "lazy_dots k (acc @ [c]) cs = Some r"
      by (auto split: if_splits)
    from Cons.IH [OF this(2)] obtain p q where
      "cs = p @ q" "LF \<notin> set p" "k ((acc @ [c]) @ p) q = Some r"
      by blast
    with c have "c # cs = (c # p) @ q \<and> LF \<notin> set (c # p) \<and> k (acc @ c # p) q = Some r"
      by simp
    then show ?thesis
      by blast
  qed
qed

lemma lazy_dots1_Some:
  assumes "lazy_dots1 k s = Some r"
  obtains p q where "s = p @ q" and "p \<noteq> []" and "LF \<notin> set p" and "k p q = Some r"
proof -
  from assms obtain c cs where s: "s = c # cs" and c: "c \<noteq> LF"
      and "lazy_dots k [c] cs = Some r"
    by (auto simp: lazy_dots1_def split: list.splits if_splits)
  from lazy_dots_Some [OF this(3)] obtain p q where
    "cs = p @ q" "LF \<notin> set p" "k ([c] @ p) q = Some r"
    by blast
  with s c have "s = (c # p) @ q" "c # p \<noteq> []" "LF \<notin> set (c # p)" "k (c # p) q = Some r"
    by simp_all
  then show thesis
    using that by blast
qed

lemma MESSAGE_RE_match_sound:
  assumes "MESSAGE_RE_match line = Some m"
  shows "time_shape (time m) \<and>
         receiver m \<noteq> [] \<and> LF \<notin> set (receiver m) \<and>
         sender m \<noteq> [] \<and> LF \<notin> set (sender m) \<and>
         content m \<noteq> [] \<and> LF \<notin> set (content m) \<and>
         (line = message_line m \<or> line = message_line m @ [LF])"
proof -
  from assms obtain s1 where l1: "line = ''@# '' @ s1"
    and k1: "time_group (\<lambda>t.
     lit '' #@ $# '' (lazy_dots1 (\<lambda>r.
     lit '' #$ *# '' (lazy_dots1 (\<lambda>s.
     lit '' #* content -*&^# '' (lazy_dots1 (\<lambda>c.
     lit '' #^&*-''
       (eos \<lparr>time = t, receiver = r, sender = s, content = c\<rparr>)))))))) s1 = Some m"
    unfolding MESSAGE_RE_match_def by (rule lit_Some)
  from k1 obtain t s2 where l2: "s1 = t @ s2" and t: "time_shape t"
    and k2: "lit '' #@ $# '' (lazy_dots1 (\<lambda>r.
     lit '' #$ *# '' (lazy_dots1 (\<lambda>s.
     lit '' #* content -*&^# '' (lazy_dots1 (\<lambda>c.
     lit '' #^&*-''
       (eos \<lparr>time = t, receiver = r, sender = s, content = c\<rparr>))))))) s2 = Some m"
    by (rule time_group_Some)
  from k2 obtain s3 where l3: "s2 = '' #@ $# '' @ s3"
    and k3: "lazy_dots1 (\<lambda>r.
     lit '' #$ *# '' (lazy_dots1 (\<lambda>s.
     lit '' #* content -*&^# '' (lazy_dots1 (\<lambda>c.
     lit '' #^&*-''
       (eos \<lparr>time = t, receiver = r, sender = s, content = c\<rparr>)))))) s3 = Some m"
    by (rule lit_Some)
  from k3 obtain r s4 where l4: "s3 = r @ s4" and r: "r \<noteq> []" "LF \<notin> set r"
    and k4: "lit '' #$ *# '' (lazy_dots1 (\<lambda>s.
     lit '' #* content -*&^# '' (lazy_dots1 (\<lambda>c.
     lit '' #^&*-''
       (eos \<lparr>time = t, receiver = r, sender = s, content = c\<rparr>))))) s4 = Some m"
    by (rule lazy_dots1_Some)
  from k4 obtain s5 where l5: "s4 = '' #$ *# '' @ s5"
    and k5: "lazy_dots1 (\<lambda>s.
     lit '' #* content -*&^# '' (lazy_dots1 (\<lambda>c.
     lit '' #^&*-''
       (eos \<lparr>time = t, receiver = r, sender = s, content = c\<rparr>)))) s5 = Some m"
    by (rule lit_Some)
  from k5 obtain s s6 where l6: "s5 = s @ s6" and s: "s \<noteq> []" "LF \<notin> set s"
    and k6: "lit '' #* content -*&^# '' (lazy_dots1 (\<lambda>c.
     lit '' #^&*-''
       (eos \<lparr>time = t, receiver = r, sender = s, content = c\<rparr>))) s6 = Some m"
    by (rule lazy_dots1_Some)
  from k6 obtain s7 where l7: "s6 = '' #* content -*&^# '' @ s7"
    and k7: "lazy_dots1 (\<lambda>c.
     lit '' #^&*-''
       (eos \<lparr>time = t, receiver = r, sender = s, content = c\<rparr>)) s7 = Some m"
    by (rule lit_Some)
  from k7 obtain c s8 where l8: "s7 = c @ s8" and c: "c \<noteq> []" "LF \<notin> set c"
    and k8: "lit '' #^&*-''
       (eos \<lparr>time = t, receiver = r, sender = s, content = c\<rparr>) s8 = Some m"
    by (rule lazy_dots1_Some)
  from k8 obtain s9 where l9: "s8 = '' #^&*-'' @ s9"
    and k9: "eos \<lparr>time = t, receiver = r, sender = s, content = c\<rparr> s9 = Some m"
    by (rule lit_Some)
  from eos_Some [OF k9] have m: "m = \<lparr>time = t, receiver = r, sender = s, content = c\<rparr>"
    and e: "s9 = [] \<or> s9 = [LF]"
    by simp_all
  have "line = message_line m @ s9"
    unfolding l1 l2 l3 l4 l5 l6 l7 l8 l9 m message_line_def by simp
  with e have "line = message_line m \<or> line = message_line m @ [LF]"
    by auto
  with t r s c m show ?thesis
    by simp
qed

subsection \<open>Lines: \<^verbatim>\<open>splitlines\<close>, \<^verbatim>\<open>strip\<close> and the join of \<^verbatim>\<open>dumps\<close>\<close>

lemma plain_simps [simp]:
  "plain []" "plain (c # cs) \<longleftrightarrow> \<not> is_linebreak c \<and> plain cs"
  "plain (xs @ ys) \<longleftrightarrow> plain xs \<and> plain ys"
  by (auto simp: plain_def)

lemma is_linebreak_LF [simp]: "is_linebreak LF"
  by (simp add: is_linebreak_def LF_def)

lemma LF_not_CR [simp]: "LF \<noteq> CR"
  by (simp add: LF_def CR_def)

lemma plain_no_LF: "plain s \<Longrightarrow> LF \<notin> set s"
  by (auto simp: plain_def)

lemma splitlines_plain_lines: "l \<in> set (splitlines s) \<Longrightarrow> plain l"
proof (induction s arbitrary: l rule: splitlines.induct)
  case 1
  then show ?case by simp
next
  case (2 c cs)
  show ?case
  proof (cases "is_linebreak c")
    case True
    with "2.prems" "2.IH"(1) show ?thesis
      by auto
  next
    case False
    with "2.prems" "2.IH"(2) show ?thesis
      by (auto split: list.splits)
  qed
qed

lemma splitlines_one: "l \<noteq> [] \<Longrightarrow> plain l \<Longrightarrow> splitlines l = [l]"
proof (induction l)
  case Nil
  then show ?case by simp
next
  case (Cons c cs)
  then show ?case
    by (cases "cs = []") simp_all
qed

lemma splitlines_append_LF: "plain l \<Longrightarrow> splitlines (l @ LF # rest) = l # splitlines rest"
  by (induction l) simp_all

lemma splitlines_join_lines:
  "\<forall>l\<in>set ls. l \<noteq> [] \<and> plain l \<Longrightarrow> splitlines (join_lines ls) = ls"
proof (induction ls rule: join_lines.induct)
  case 1
  then show ?case by simp
next
  case (2 l)
  then show ?case
    by (simp add: splitlines_one)
next
  case (3 l l' ls)
  then show ?case
    by (simp add: splitlines_append_LF del: splitlines.simps)
qed

lemma strip_subset: "set (strip l) \<subseteq> set l"
proof -
  have "set (strip l) = set (dropWhile is_space (rev (dropWhile is_space l)))"
    by (simp add: strip_def)
  also have "\<dots> \<subseteq> set (rev (dropWhile is_space l))"
    by (auto dest: set_dropWhileD)
  also have "\<dots> \<subseteq> set l"
    by (auto dest: set_dropWhileD)
  finally show ?thesis .
qed

lemma lines_of_plain: "l \<in> set (lines_of text) \<Longrightarrow> plain l"
proof -
  assume "l \<in> set (lines_of text)"
  then obtain l' where "l' \<in> set (splitlines text)" and "l = strip l'"
    by (auto simp: lines_of_def)
  with splitlines_plain_lines [of l' "text"] strip_subset [of l'] show ?thesis
    by (auto simp: plain_def)
qed

lemma strip_id: "l \<noteq> [] \<Longrightarrow> \<not> is_space (hd l) \<Longrightarrow> \<not> is_space (last l) \<Longrightarrow> strip l = l"
proof -
  assume l: "l \<noteq> []" and h: "\<not> is_space (hd l)" and t: "\<not> is_space (last l)"
  from l h have 1: "dropWhile is_space l = l"
    by (cases l) simp_all
  from l t have "\<not> is_space (hd (rev l))"
    by (simp add: hd_rev)
  with l have 2: "dropWhile is_space (rev l) = rev l"
    by (cases "rev l") simp_all
  show ?thesis
    by (simp add: strip_def 1 2)
qed

lemma lines_of_join_lines: "\<forall>l\<in>set ls. tidy l \<Longrightarrow> lines_of (join_lines ls) = ls"
proof -
  assume a: "\<forall>l\<in>set ls. tidy l"
  then have "splitlines (join_lines ls) = ls"
    by (intro splitlines_join_lines) (simp add: tidy_def)
  moreover from a have "\<forall>l\<in>set ls. strip l = l \<and> l \<noteq> []"
    by (auto simp: tidy_def strip_id)
  then have "map strip (filter (\<lambda>line. strip line \<noteq> []) ls) = ls"
    by (induction ls) simp_all
  ultimately show ?thesis
    by (simp add: lines_of_def)
qed

subsection \<open>The first block with a date\<close>

lemma first_block_split:
  assumes "d \<in> set (list_dates blocks)"
  shows "\<exists>pre b post. blocks = pre @ b # post \<and> (\<forall>x\<in>set pre. date x \<noteq> d) \<and> date b = d"
proof -
  from assms have "\<exists>x\<in>set blocks. date x = d"
    by (auto simp: list_dates_def)
  from split_list_first_prop [OF this] show ?thesis
    by blast
qed

lemma append_to_block_first:
  "\<forall>x\<in>set pre. date x \<noteq> d \<Longrightarrow> date b = d \<Longrightarrow>
   append_to_block d m (pre @ b # post) =
     Some (pre @ b\<lparr>messages := messages b @ [m]\<rparr> # post)"
  by (induction pre) auto

subsection \<open>\<^verbatim>\<open>add_message\<close> on a date that is present\<close>

text \<open>
  C7. When the store has a block with date \<open>d\<close> and the five arguments are non-empty,
  \<^verbatim>\<open>add_message\<close> succeeds, appends the new message to the messages of the first block
  with that date, leaves every other block as it is and creates none: the list of dates,
  and so its length, is the same after the call.
\<close>

theorem add_message_existing_date:
  assumes "d \<in> set (list_dates blocks)"
    and "d \<noteq> []" and "t \<noteq> []" and "r \<noteq> []" and "s \<noteq> []" and "c \<noteq> []"
  shows "\<exists>pre b post.
           blocks = pre @ b # post \<and> (\<forall>x\<in>set pre. date x \<noteq> d) \<and> date b = d \<and>
           add_message d t r s c blocks =
             (Inr (), pre @ b\<lparr>messages := messages b @
                        [\<lparr>time = t, receiver = r, sender = s, content = c\<rparr>]\<rparr> # post) \<and>
           list_dates (snd (add_message d t r s c blocks)) = list_dates blocks \<and>
           length (list_dates (snd (add_message d t r s c blocks))) = length (list_dates blocks)"
proof -
  from first_block_split [OF assms(1)] obtain pre b post where
    split: "blocks = pre @ b # post" "\<forall>x\<in>set pre. date x \<noteq> d" "date b = d"
    by blast
  let ?m = "\<lparr>time = t, receiver = r, sender = s, content = c\<rparr>"
  have "add_message d t r s c blocks =
          (Inr (), pre @ b\<lparr>messages := messages b @ [?m]\<rparr> # post)"
    using assms(2-) split append_to_block_first [OF split(2,3), of ?m post]
    by (simp add: add_message_def)
  with split show ?thesis
    by (auto simp: list_dates_def)
qed

theorem add_message_existing_date_witness:
  "''d2'' \<in> set (list_dates store1) \<and>
   add_message ''d2'' ''09:00:00'' ''Bob'' ''Alice'' ''hi'' store1 =
     (Inr (), [\<lparr>date = ''d1'', messages = []\<rparr>,
               \<lparr>date = ''d2'', messages =
                  [\<lparr>time = ''t'', receiver = ''r'', sender = ''s'', content = ''c''\<rparr>,
                   \<lparr>time = ''09:00:00'', receiver = ''Bob'', sender = ''Alice'',
                      content = ''hi''\<rparr>]\<rparr>]) \<and>
   length (list_dates (snd (add_message ''d2'' ''09:00:00'' ''Bob'' ''Alice'' ''hi'' store1))) = 2"
proof -
  have h: "''d2'' \<in> set (list_dates store1)"
    by (simp add: store1_def list_dates_def)
  have len: "length (list_dates store1) = 2"
    by (simp add: store1_def list_dates_def)
  have val: "add_message ''d2'' ''09:00:00'' ''Bob'' ''Alice'' ''hi'' store1 =
     (Inr (), [\<lparr>date = ''d1'', messages = []\<rparr>,
               \<lparr>date = ''d2'', messages =
                  [\<lparr>time = ''t'', receiver = ''r'', sender = ''s'', content = ''c''\<rparr>,
                   \<lparr>time = ''09:00:00'', receiver = ''Bob'', sender = ''Alice'',
                      content = ''hi''\<rparr>]\<rparr>])"
    by (simp add: store1_def add_message_def)
  from add_message_existing_date [OF h, of "''09:00:00''" "''Bob''" "''Alice''" "''hi''"]
  have "length (list_dates (snd (add_message ''d2'' ''09:00:00'' ''Bob'' ''Alice'' ''hi'' store1))) =
        length (list_dates store1)"
    by auto
  with h len val show ?thesis
    by simp
qed

subsection \<open>\<^verbatim>\<open>delete_message\<close> with an index out of range\<close>

text \<open>
  C8. When the store has a block with date \<open>d\<close> (\<^verbatim>\<open>list_messages\<close> returns the
  messages \<open>ms\<close> of the first such block, the one \<^verbatim>\<open>delete_message\<close> looks at) and
  the index is negative or not below the number of those messages, \<^verbatim>\<open>delete_message\<close>
  fails with the invalid-index error and the whole store is what it was.
\<close>

theorem delete_message_out_of_range:
  assumes "list_messages d blocks = Inr ms"
    and "i < 0 \<or> int (length ms) \<le> i"
  shows "delete_message d i blocks = (Inl (InvalidIndex i), blocks)"
  using assms by (induction blocks) (auto split: if_splits)

theorem delete_message_out_of_range_witness:
  "list_messages ''d2'' store1 =
     Inr [\<lparr>time = ''t'', receiver = ''r'', sender = ''s'', content = ''c''\<rparr>] \<and>
   delete_message ''d2'' 1 store1 = (Inl (InvalidIndex 1), store1) \<and>
   delete_message ''d2'' (- 1) store1 = (Inl (InvalidIndex (- 1)), store1)"
proof -
  have h: "list_messages ''d2'' store1 =
     Inr [\<lparr>time = ''t'', receiver = ''r'', sender = ''s'', content = ''c''\<rparr>]"
    by (simp add: store1_def)
  from delete_message_out_of_range [OF h, of 1] delete_message_out_of_range [OF h, of "- 1"] h
  show ?thesis
    by simp
qed

subsection \<open>\<^verbatim>\<open>edit_message\<close> stops at the first bad item\<close>

lemma field_names_simps:
  "''time'' \<in> field_names" "''receiver'' \<in> field_names"
  "''sender'' \<in> field_names" "''content'' \<in> field_names"
  by (simp_all add: field_names_def)

lemma get_set_field_same:
  "key \<in> field_names \<Longrightarrow> get_field key (set_field key v m) = v"
  by (auto simp: field_names_def get_field_def set_field_def)

lemma get_set_field_other:
  "key \<in> field_names \<Longrightarrow> key' \<in> field_names \<Longrightarrow> key' \<noteq> key \<Longrightarrow>
   get_field key' (set_field key v m) = get_field key' m"
  by (auto simp: field_names_def get_field_def set_field_def)

lemma apply_updates_Cons:
  "apply_updates ((key, v) # rest) m =
     (if key \<notin> field_names then (Inl (InvalidEditField key), m)
      else if v = [] then (Inl (EmptyValue key), m)
      else apply_updates rest (set_field key v m))"
  by (simp add: field_names_def)

declare apply_updates.simps(2) [simp del]


lemma apply_updates_stops:
  "\<forall>(k', v')\<in>set good. k' \<in> field_names \<and> v' \<noteq> [] \<Longrightarrow> k \<notin> field_names \<or> v = [] \<Longrightarrow>
   apply_updates (good @ (k, v) # rest) m =
     (Inl (if k \<notin> field_names then InvalidEditField k else EmptyValue k),
      snd (apply_updates good m))"
proof (induction good arbitrary: m)
  case Nil
  then show ?case
    by (simp add: apply_updates_Cons)
next
  case (Cons p good)
  obtain k' v' where p: "p = (k', v')" by (cases p)
  with Cons.prems have ok: "k' \<in> field_names" "v' \<noteq> []"
      and rest: "\<forall>(k', v')\<in>set good. k' \<in> field_names \<and> v' \<noteq> []"
    by auto
  from Cons.IH [OF rest Cons.prems(2), of "set_field k' v' m"] p ok show ?case
    by (simp add: apply_updates_Cons)
qed


lemma apply_updates_other:
  "\<forall>(k', v')\<in>set good. k' \<in> field_names \<and> v' \<noteq> [] \<Longrightarrow> key \<in> field_names \<Longrightarrow>
   key \<notin> fst ` set good \<Longrightarrow>
   get_field key (snd (apply_updates good m)) = get_field key m"
proof (induction good arbitrary: m)
  case Nil
  then show ?case by simp
next
  case (Cons p good)
  obtain k' v' where p: "p = (k', v')" by (cases p)
  with Cons.prems have ok: "k' \<in> field_names" "v' \<noteq> []" "key \<noteq> k'"
      and rest: "\<forall>(k', v')\<in>set good. k' \<in> field_names \<and> v' \<noteq> []" "key \<notin> fst ` set good"
    by auto
  have "get_field key (snd (apply_updates good (set_field k' v' m))) =
        get_field key (set_field k' v' m)"
    by (rule Cons.IH [OF rest(1) Cons.prems(2) rest(2)])
  also have "\<dots> = get_field key m"
    by (rule get_set_field_other [OF ok(1) Cons.prems(2) ok(3)])
  finally show ?case
    using p ok(1,2) by (simp add: apply_updates_Cons)
qed

lemma apply_updates_written:
  "\<forall>(k', v')\<in>set good. k' \<in> field_names \<and> v' \<noteq> [] \<Longrightarrow> distinct (map fst good) \<Longrightarrow>
   (key, v) \<in> set good \<Longrightarrow> get_field key (snd (apply_updates good m)) = v"
proof (induction good arbitrary: m)
  case Nil
  then show ?case by simp
next
  case (Cons p good)
  obtain k' v' where p: "p = (k', v')" by (cases p)
  with Cons.prems have ok: "k' \<in> field_names" "v' \<noteq> []" "k' \<notin> fst ` set good"
      and rest: "\<forall>(k', v')\<in>set good. k' \<in> field_names \<and> v' \<noteq> []" "distinct (map fst good)"
    by auto
  have step: "snd (apply_updates (p # good) m) = snd (apply_updates good (set_field k' v' m))"
    using p ok(1,2) by (simp add: apply_updates_Cons)
  show ?case
  proof (cases "(key, v) = (k', v')")
    case True
    have "get_field k' (snd (apply_updates good (set_field k' v' m))) =
          get_field k' (set_field k' v' m)"
      by (rule apply_updates_other [OF rest(1) ok(1) ok(3)])
    also have "\<dots> = v'"
      by (rule get_set_field_same [OF ok(1)])
    finally show ?thesis
      using step True by simp
  next
    case False
    with Cons.prems(3) p have "(key, v) \<in> set good" by auto
    from Cons.IH [OF rest this] step show ?thesis by simp
  qed
qed

lemma edit_message_first:
  "\<forall>x\<in>set pre. date x \<noteq> d \<Longrightarrow> date b = d \<Longrightarrow> 0 \<le> i \<Longrightarrow> i < int (length (messages b)) \<Longrightarrow>
   edit_message d i updates (pre @ b # post) =
     (fst (apply_updates updates (messages b ! nat i)),
      pre @ b\<lparr>messages := (messages b)[nat i := snd (apply_updates updates (messages b ! nat i))]\<rparr> # post)"
proof (induction pre)
  case Nil
  then show ?case
    by (simp add: case_prod_beta)
next
  case (Cons x pre)
  then show ?case
    by simp
qed


text \<open>
  C10. \<^verbatim>\<open>edit_message\<close> checks and writes one item of \<open>updates\<close> after the other.
  When the block and the index exist and the items are valid ones \<open>good\<close> (a key of the
  four, a non-empty value; the keys of a dictionary are distinct) followed by an item
  with an unknown key or an empty value, the call fails with the error of that item, and
  the store it leaves holds, in place of the message, one in which every field named in
  \<open>good\<close> has its new value and the other fields are as before.
\<close>

theorem edit_message_partial_effect:
  assumes "blocks = pre @ b # post" and "\<forall>x\<in>set pre. date x \<noteq> d" and "date b = d"
    and "0 \<le> i" and "i < int (length (messages b))"
    and "updates = good @ (k, v) # rest"
    and "\<forall>(k', v')\<in>set good. k' \<in> field_names \<and> v' \<noteq> []"
    and "distinct (map fst good)"
    and "k \<notin> field_names \<or> v = []"
  shows "\<exists>m'. edit_message d i updates blocks =
           (Inl (if k \<notin> field_names then InvalidEditField k else EmptyValue k),
            pre @ b\<lparr>messages := (messages b)[nat i := m']\<rparr> # post) \<and>
           (\<forall>(k', v')\<in>set good. get_field k' m' = v') \<and>
           (\<forall>key\<in>field_names - fst ` set good.
              get_field key m' = get_field key (messages b ! nat i))"
proof -
  let ?m = "messages b ! nat i"
  let ?m' = "snd (apply_updates good ?m)"
  have "edit_message d i updates blocks =
          (Inl (if k \<notin> field_names then InvalidEditField k else EmptyValue k),
           pre @ b\<lparr>messages := (messages b)[nat i := ?m']\<rparr> # post)"
    unfolding assms(1,6) edit_message_first [OF assms(2-5)] apply_updates_stops [OF assms(7,9)]
    by simp
  moreover have "\<forall>(k', v')\<in>set good. get_field k' ?m' = v'"
    using apply_updates_written [OF assms(7,8)] by auto
  moreover have "\<forall>key\<in>field_names - fst ` set good. get_field key ?m' = get_field key ?m"
    using apply_updates_other [OF assms(7)] by auto
  ultimately show ?thesis
    by blast
qed


theorem edit_message_partial_effect_witness:
  "edit_message ''d2'' 0 [(''time'', ''10:00:00''), (''colour'', ''red'')] store1 =
     (Inl (InvalidEditField ''colour''),
      [\<lparr>date = ''d1'', messages = []\<rparr>,
       \<lparr>date = ''d2'', messages =
          [\<lparr>time = ''10:00:00'', receiver = ''r'', sender = ''s'', content = ''c''\<rparr>]\<rparr>])"
proof -
  let ?m = "\<lparr>time = ''t'', receiver = ''r'', sender = ''s'', content = ''c''\<rparr>"
  let ?b = "\<lparr>date = ''d2'', messages = [?m]\<rparr>"
  let ?pre = "[\<lparr>date = ''d1'', messages = []\<rparr>]"
  have 1: "store1 = ?pre @ ?b # []"
    by (simp add: store1_def)
  have 2: "\<forall>x\<in>set ?pre. date x \<noteq> ''d2''" by simp
  have 3: "date ?b = ''d2''" by simp
  have 4: "(0::int) \<le> 0" by simp
  have 5: "0 < int (length (messages ?b))" by simp
  have 6: "[(''time'', ''10:00:00''), (''colour'', ''red'')] =
           [(''time'', ''10:00:00'')] @ (''colour'', ''red'') # []" by simp
  have 7: "\<forall>(k', v')\<in>set [(''time'', ''10:00:00'')]. k' \<in> field_names \<and> v' \<noteq> []"
    by (simp add: field_names_simps)
  have 8: "distinct (map fst [(''time'', ''10:00:00'')])" by simp
  have bad: "''colour'' \<notin> field_names" by (simp add: field_names_def)
  then have 9: "''colour'' \<notin> field_names \<or> ''red'' = []" by simp
  from edit_message_partial_effect [OF 1 2 3 4 5 6 7 8 9]
  obtain m' where r: "edit_message ''d2'' 0 [(''time'', ''10:00:00''), (''colour'', ''red'')] store1 =
      (Inl (if ''colour'' \<notin> field_names then InvalidEditField ''colour'' else EmptyValue ''colour''),
       ?pre @ ?b\<lparr>messages := (messages ?b)[nat 0 := m']\<rparr> # [])"
    and t: "\<forall>(k', v')\<in>set [(''time'', ''10:00:00'')]. get_field k' m' = v'"
    and o: "\<forall>key\<in>field_names - fst ` set [(''time'', ''10:00:00'')].
              get_field key m' = get_field key (messages ?b ! nat 0)"
    by blast
  have mem: "''receiver'' \<in> field_names - fst ` set [(''time'', ''10:00:00'')]"
    "''sender'' \<in> field_names - fst ` set [(''time'', ''10:00:00'')]"
    "''content'' \<in> field_names - fst ` set [(''time'', ''10:00:00'')]"
    by (simp_all add: field_names_simps)
  have "get_field ''receiver'' m' = get_field ''receiver'' ?m"
    "get_field ''sender'' m' = get_field ''sender'' ?m"
    "get_field ''content'' m' = get_field ''content'' ?m"
    using o [rule_format, OF mem(1)] o [rule_format, OF mem(2)] o [rule_format, OF mem(3)]
    by simp_all
  moreover from t have "get_field ''time'' m' = ''10:00:00''" by simp
  ultimately have "m' = \<lparr>time = ''10:00:00'', receiver = ''r'', sender = ''s'', content = ''c''\<rparr>"
    by (cases m') (simp add: get_field_def)
  with r bad show ?thesis
    by simp
qed

subsection \<open>The check of the groups in \<^verbatim>\<open>load\<close>\<close>

lemma missing_field_None:
  "MESSAGE_RE_match line = Some m \<Longrightarrow> missing_field m = None"
  using MESSAGE_RE_match_sound [of line m]
  by (auto simp: missing_field_def time_shape_def)

lemma load_loop_no_missing_field:
  "fst (load_loop ls cur msgs blocks) \<noteq> Inl (MissingField key)"
proof (induction ls arbitrary: cur msgs blocks)
  case Nil
  then show ?case by simp
next
  case (Cons line rest)
  show ?case
  proof (cases "HEADER_RE_match line")
    case (Some d)
    then show ?thesis
      using Cons.IH by simp
  next
    case None
    note header = this
    show ?thesis
    proof (cases "MESSAGE_RE_match line")
      case (Some m)
      with header missing_field_None [OF Some] show ?thesis
        using Cons.IH by simp
    next
      case None
      with header show ?thesis
        using Cons.IH by (simp split: option.splits)
    qed
  qed
qed

text \<open>
  C9. Whenever the message pattern matches a line, the four groups are non-empty (the
  time is eight characters, the other three are \<^verbatim>\<open>.+?\<close>), so the check that follows
  the match finds no empty one, and \<^verbatim>\<open>load\<close> raises the missing-field error on no
  text.
\<close>

theorem missing_field_unreachable:
  "(MESSAGE_RE_match line = Some m \<longrightarrow>
      time m \<noteq> [] \<and> receiver m \<noteq> [] \<and> sender m \<noteq> [] \<and> content m \<noteq> [] \<and>
      missing_field m = None) \<and>
   fst (load text blocks) \<noteq> Inl (MissingField key)"
proof -
  have "time m \<noteq> [] \<and> receiver m \<noteq> [] \<and> sender m \<noteq> [] \<and> content m \<noteq> [] \<and>
        missing_field m = None" if "MESSAGE_RE_match line = Some m"
    using MESSAGE_RE_match_sound [OF that] missing_field_None [OF that]
    by (auto simp: time_shape_def)
  then show ?thesis
    by (simp add: load_def load_loop_no_missing_field)
qed

theorem missing_field_unreachable_witness:
  "MESSAGE_RE_match ''@# 09:00:00 #@ $# Bob #$ *# Alice #* content -*&^# hello #^&*-'' =
     Some \<lparr>time = ''09:00:00'', receiver = ''Bob'', sender = ''Alice'', content = ''hello''\<rparr> \<and>
   missing_field \<lparr>time = ''09:00:00'', receiver = ''Bob'', sender = ''Alice'',
                  content = ''hello''\<rparr> = None"
proof -
  have m: "MESSAGE_RE_match ''@# 09:00:00 #@ $# Bob #$ *# Alice #* content -*&^# hello #^&*-'' =
     Some \<lparr>time = ''09:00:00'', receiver = ''Bob'', sender = ''Alice'', content = ''hello''\<rparr>"
    by code_simp
  with missing_field_unreachable
    [of "''@# 09:00:00 #@ $# Bob #$ *# Alice #* content -*&^# hello #^&*-''"
        "\<lparr>time = ''09:00:00'', receiver = ''Bob'', sender = ''Alice'', content = ''hello''\<rparr>"]
  show ?thesis
    by blast
qed

subsection \<open>What a failed \<^verbatim>\<open>load\<close> leaves in the store\<close>


lemma load_broken_text:
  "load broken_text blocks = (Inl (InvalidLine ''x''), [\<lparr>date = ''d'', messages = []\<rparr>])"
  unfolding load_def broken_text_def by code_simp








subsection \<open>The header pattern on a header that \<^verbatim>\<open>dumps\<close> writes\<close>

lemma header_tail_Some:
  assumes "lit '' *-'' (cls is_space (lit ''#$*'' (eos d))) s = Some r"
  shows "r = d \<and> (\<exists>w. is_space w \<and> (s = '' *-'' @ w # ''#$*'' \<or> s = '' *-'' @ w # ''#$*'' @ [LF]))"
proof -
  from assms obtain s1 where 1: "s = '' *-'' @ s1" and k1: "cls is_space (lit ''#$*'' (eos d)) s1 = Some r"
    by (rule lit_Some)
  from k1 obtain w s2 where 2: "s1 = w # s2" and w: "is_space w" and k2: "lit ''#$*'' (eos d) s2 = Some r"
    by (rule cls_Some)
  from k2 obtain s3 where 3: "s2 = ''#$*'' @ s3" and k3: "eos d s3 = Some r"
    by (rule lit_Some)
  from eos_Some [OF k3] 1 2 3 w show ?thesis
    by auto
qed

lemma header_tail_exact: "lit '' *-'' (cls is_space (lit ''#$*'' (eos d))) '' *- #$*'' = Some d"
  by (simp add: lit_def cls_def eos_def is_space_def)

lemma header_tail_long:
  "LF \<notin> set p \<Longrightarrow> lit '' *-'' (cls is_space (lit ''#$*'' (eos d))) (c # p @ '' *- #$*'') = None"
proof (rule ccontr)
  assume p: "LF \<notin> set p" and "lit '' *-'' (cls is_space (lit ''#$*'' (eos d))) (c # p @ '' *- #$*'') \<noteq> None"
  then obtain r where "lit '' *-'' (cls is_space (lit ''#$*'' (eos d))) (c # p @ '' *- #$*'') = Some r"
    by blast
  from header_tail_Some [OF this] obtain w where
    "c # p @ '' *- #$*'' = '' *-'' @ w # ''#$*'' \<or> c # p @ '' *- #$*'' = '' *-'' @ w # ''#$*'' @ [LF]"
    by blast
  then show False
  proof
    assume "c # p @ '' *- #$*'' = '' *-'' @ w # ''#$*''"
    then have "length (c # p @ '' *- #$*'') = length ('' *-'' @ w # ''#$*'')"
      by (rule arg_cong)
    then show False by simp
  next
    assume e: "c # p @ '' *- #$*'' = '' *-'' @ w # ''#$*'' @ [LF]"
    then have "length (c # p @ '' *- #$*'') = length ('' *-'' @ w # ''#$*'' @ [LF])"
      by (rule arg_cong)
    then have "p = []" by simp
    with e show False by (simp add: LF_def)
  qed
qed

lemma lazy_dots_header:
  "LF \<notin> set p \<Longrightarrow>
   lazy_dots (\<lambda>d. lit '' *-'' (cls is_space (lit ''#$*'' (eos d)))) acc (p @ '' *- #$*'')
     = Some (acc @ p)"
proof (induction p arbitrary: acc)
  case Nil
  have "lazy_dots (\<lambda>d. lit '' *-'' (cls is_space (lit ''#$*'' (eos d)))) acc '' *- #$*'' = Some acc"
    by (subst lazy_dots.simps) (simp only: header_tail_exact option.case)
  then show ?case by simp
next
  case (Cons c p)
  then have c: "c \<noteq> LF" and p: "LF \<notin> set p"
    by auto
  have "lazy_dots (\<lambda>d. lit '' *-'' (cls is_space (lit ''#$*'' (eos d)))) acc (c # p @ '' *- #$*'')
      = lazy_dots (\<lambda>d. lit '' *-'' (cls is_space (lit ''#$*'' (eos d)))) (acc @ [c]) (p @ '' *- #$*'')"
    using c header_tail_long [OF p, of acc c] by simp
  with Cons.IH [OF p, of "acc @ [c]"] show ?case
    by simp
qed

lemma HEADER_RE_match_header_line:
  assumes "LF \<notin> set d"
  shows "HEADER_RE_match (header_line d) = Some d"
proof -
  have "HEADER_RE_match (header_line d) =
      lazy_dots (\<lambda>d. lit '' *-'' (cls is_space (lit ''#$*'' (eos d)))) [] (d @ '' *- #$*'')"
    unfolding HEADER_RE_match_def header_line_def by (rule lit_append)
  also have "\<dots> = Some ([] @ d)"
    by (rule lazy_dots_header [OF assms])
  finally show ?thesis
    by simp
qed

lemma HEADER_RE_match_sound:
  assumes "HEADER_RE_match line = Some d"
  shows "LF \<notin> set d \<and> set d \<subseteq> set line"
proof -
  from assms obtain s1 where 1: "line = ''#$* date -* '' @ s1"
    and k1: "lazy_dots (\<lambda>d. lit '' *-'' (cls is_space (lit ''#$*'' (eos d)))) [] s1 = Some d"
    unfolding HEADER_RE_match_def by (rule lit_Some)
  from lazy_dots_Some [OF k1] obtain p q where 2: "s1 = p @ q" and p: "LF \<notin> set p"
    and k2: "lit '' *-'' (cls is_space (lit ''#$*'' (eos ([] @ p)))) q = Some d"
    by blast
  from header_tail_Some [OF k2] have "d = p"
    by simp
  with 1 2 p show ?thesis
    by auto
qed

subsection \<open>\<^verbatim>\<open>load\<close> after \<^verbatim>\<open>dumps\<close>\<close>

lemma HEADER_RE_match_message_line: "HEADER_RE_match (message_line m) = None"
  by (simp add: HEADER_RE_match_def message_line_def lit_def)

lemma end_line_matches:
  "HEADER_RE_match end_line = None" "MESSAGE_RE_match end_line = None" "END_RE_match end_line"
  by (simp_all add: HEADER_RE_match_def MESSAGE_RE_match_def END_RE_match_def end_line_def
      lit_def eos_def)

lemma tidy_header_line: "plain d \<Longrightarrow> tidy (header_line d)"
  by (simp add: tidy_def header_line_def is_space_def is_linebreak_def)

lemma tidy_message_line: "plain (message_line m) \<Longrightarrow> tidy (message_line m)"
  by (simp add: tidy_def message_line_def is_space_def)

lemma tidy_end_line: "tidy end_line"
  by (simp add: tidy_def end_line_def is_space_def is_linebreak_def)

lemma tidy_block_lines: "good_block b \<Longrightarrow> \<forall>l\<in>set (block_lines b). tidy l"
  by (auto simp: good_block_def good_message_def block_lines_def
      tidy_header_line tidy_message_line tidy_end_line)

lemma load_loop_messages:
  "\<forall>m\<in>set ms. good_message m \<Longrightarrow>
   load_loop (map message_line ms @ rest) (Some d) msgs acc = load_loop rest (Some d) (msgs @ ms) acc"
proof (induction ms arbitrary: msgs)
  case Nil
  then show ?case by simp
next
  case (Cons m ms)
  then have m: "MESSAGE_RE_match (message_line m) = Some m"
    by (simp add: good_message_def)
  have "load_loop (message_line m # map message_line ms @ rest) (Some d) msgs acc =
        load_loop (map message_line ms @ rest) (Some d) (msgs @ [m]) acc"
    by (simp add: HEADER_RE_match_message_line m missing_field_None [OF m])
  with Cons.IH [of "msgs @ [m]"] Cons.prems show ?case
    by simp
qed

lemma load_loop_block:
  assumes "good_block b"
  shows "load_loop (block_lines b @ rest) None msgs acc = load_loop rest None [] (acc @ [b])"
proof -
  from assms have d: "HEADER_RE_match (header_line (date b)) = Some (date b)"
    and ms: "\<forall>m\<in>set (messages b). good_message m"
    by (simp_all add: good_block_def HEADER_RE_match_header_line plain_no_LF)
  have "load_loop (block_lines b @ rest) None msgs acc =
        load_loop (map message_line (messages b) @ end_line # rest) (Some (date b)) [] acc"
    by (simp add: block_lines_def d)
  also have "\<dots> = load_loop (end_line # rest) (Some (date b)) ([] @ messages b) acc"
    by (rule load_loop_messages [OF ms])
  also have "\<dots> = load_loop rest None [] (acc @ [\<lparr>date = date b, messages = messages b\<rparr>])"
    by (simp add: end_line_matches)
  also have "\<lparr>date = date b, messages = messages b\<rparr> = b"
    by (cases b) simp
  finally show ?thesis .
qed

lemma load_loop_blocks:
  "\<forall>b\<in>set bs. good_block b \<Longrightarrow>
   load_loop (concat (map block_lines bs) @ rest) None [] acc = load_loop rest None [] (acc @ bs)"
proof (induction bs arbitrary: acc)
  case Nil
  then show ?case by simp
next
  case (Cons b bs)
  then show ?case
    by (simp add: load_loop_block)
qed

lemma load_dumps:
  assumes "\<forall>b\<in>set bs. good_block b"
  shows "load (dumps bs) blocks = (Inr (), bs)"
proof -
  from assms have "\<forall>l\<in>set (concat (map block_lines bs)). tidy l"
    by (auto dest: tidy_block_lines)
  then have "lines_of (dumps bs) = concat (map block_lines bs)"
    unfolding dumps_def by (rule lines_of_join_lines)
  then have "load (dumps bs) blocks = load_loop (concat (map block_lines bs) @ []) None [] []"
    by (simp add: load_def)
  also have "\<dots> = load_loop [] None [] ([] @ bs)"
    by (rule load_loop_blocks [OF assms])
  finally show ?thesis
    by simp
qed

lemma HEADER_RE_match_plain:
  "HEADER_RE_match line = Some d \<Longrightarrow> plain line \<Longrightarrow> plain d"
  using HEADER_RE_match_sound [of line d] by (auto simp: plain_def)

lemma MESSAGE_RE_match_good:
  assumes "MESSAGE_RE_match line = Some m" and "plain line"
  shows "good_message m"
proof -
  from MESSAGE_RE_match_sound [OF assms(1)]
  have "line = message_line m \<or> line = message_line m @ [LF]"
    by simp
  moreover from assms(2) have "LF \<notin> set line"
    by (rule plain_no_LF)
  ultimately have "line = message_line m"
    by auto
  with assms show ?thesis
    by (simp add: good_message_def)
qed

lemma load_loop_good:
  "\<forall>l\<in>set ls. plain l \<Longrightarrow> \<forall>d. cur = Some d \<longrightarrow> plain d \<Longrightarrow>
   \<forall>m\<in>set msgs. good_message m \<Longrightarrow> \<forall>b\<in>set acc. good_block b \<Longrightarrow>
   load_loop ls cur msgs acc = (Inr (), bs) \<Longrightarrow> \<forall>b\<in>set bs. good_block b"
proof (induction ls arbitrary: cur msgs acc)
  case Nil
  then show ?case
    by (auto split: if_splits)
next
  case (Cons line rest)
  from Cons.prems(1) have line: "plain line" and rest: "\<forall>l\<in>set rest. plain l"
    by simp_all
  show ?case
  proof (cases "HEADER_RE_match line")
    case (Some d)
    with Cons.prems(5) have run: "load_loop rest (Some d) [] acc = (Inr (), bs)"
      by (auto split: if_splits)
    from HEADER_RE_match_plain [OF Some line] have "\<forall>d'. Some d = Some d' \<longrightarrow> plain d'"
      by simp
    from Cons.IH [OF rest this _ Cons.prems(4) run] show ?thesis
      by simp
  next
    case None
    note header = this
    show ?thesis
    proof (cases "MESSAGE_RE_match line")
      case (Some m)
      with header Cons.prems(5) have run: "load_loop rest cur (msgs @ [m]) acc = (Inr (), bs)"
        by (auto split: if_splits option.splits)
      from MESSAGE_RE_match_good [OF Some line] Cons.prems(3)
      have "\<forall>m'\<in>set (msgs @ [m]). good_message m'"
        by simp
      from Cons.IH [OF rest Cons.prems(2) this Cons.prems(4) run] show ?thesis .
    next
      case None
      with header Cons.prems(5) obtain d where cur: "cur = Some d"
        and run: "load_loop rest None [] (acc @ [\<lparr>date = d, messages = msgs\<rparr>]) = (Inr (), bs)"
        by (auto split: if_splits option.splits)
      from cur Cons.prems(2,3,4)
      have "\<forall>b\<in>set (acc @ [\<lparr>date = d, messages = msgs\<rparr>]). good_block b"
        by (simp add: good_block_def)
      from Cons.IH [OF rest _ _ this run] show ?thesis
        by simp
    qed
  qed
qed

lemma load_spaced_text:
  "load spaced_text blocks =
     (Inr (), [\<lparr>date = ''2024-01-01'', messages =
        [\<lparr>time = ''09:00:00'', receiver = ''Bob'', sender = ''Alice'', content = ''hello''\<rparr>]\<rparr>])"
  unfolding load_def spaced_text_def by code_simp

text \<open>
  C3. When \<^verbatim>\<open>load\<close> succeeds on a text with the blocks \<open>bs\<close>, \<^verbatim>\<open>load\<close> of
  \<^verbatim>\<open>dumps\<close> of these blocks succeeds (from any prior content of the store) and gives the
  same blocks: the same dates, and the same messages in the same order.
\<close>

theorem load_dumps_load:
  assumes "load text blocks = (Inr (), bs)"
  shows "load (dumps bs) blocks' = (Inr (), bs)"
proof -
  from assms have "load_loop (lines_of text) None [] [] = (Inr (), bs)"
    by (simp add: load_def)
  moreover have "\<forall>l\<in>set (lines_of text). plain l"
    by (simp add: lines_of_plain)
  ultimately have "\<forall>b\<in>set bs. good_block b"
    using load_loop_good [of "lines_of text" None "[]" "[]" bs] by simp
  then show ?thesis
    by (rule load_dumps)
qed

theorem load_dumps_load_witness:
  "load spaced_text [] =
     (Inr (), [\<lparr>date = ''2024-01-01'', messages =
        [\<lparr>time = ''09:00:00'', receiver = ''Bob'', sender = ''Alice'', content = ''hello''\<rparr>]\<rparr>]) \<and>
   load (dumps [\<lparr>date = ''2024-01-01'', messages =
        [\<lparr>time = ''09:00:00'', receiver = ''Bob'', sender = ''Alice'', content = ''hello''\<rparr>]\<rparr>]) [] =
     (Inr (), [\<lparr>date = ''2024-01-01'', messages =
        [\<lparr>time = ''09:00:00'', receiver = ''Bob'', sender = ''Alice'', content = ''hello''\<rparr>]\<rparr>]) \<and>
   dumps [\<lparr>date = ''2024-01-01'', messages =
        [\<lparr>time = ''09:00:00'', receiver = ''Bob'', sender = ''Alice'', content = ''hello''\<rparr>]\<rparr>] \<noteq>
     spaced_text"
proof -
  have "dumps [\<lparr>date = ''2024-01-01'', messages =
        [\<lparr>time = ''09:00:00'', receiver = ''Bob'', sender = ''Alice'', content = ''hello''\<rparr>]\<rparr>] \<noteq>
     spaced_text"
    by (simp add: dumps_def block_lines_def header_line_def spaced_text_def)
  with load_dumps_load [OF load_spaced_text [of "[]"], of "[]"] load_spaced_text [of "[]"]
  show ?thesis
    by simp
qed

subsection \<open>One block for a date\<close>

lemma append_to_block_dates:
  "append_to_block d m blocks = Some blocks' \<Longrightarrow> map date blocks' = map date blocks"
  by (induction blocks arbitrary: blocks') (auto split: if_splits)

lemma append_to_block_None:
  "append_to_block d m blocks = None \<Longrightarrow> d \<notin> set (map date blocks)"
  by (induction blocks) (auto split: if_splits)

lemma add_message_distinct:
  "distinct (list_dates blocks) \<Longrightarrow> distinct (list_dates (snd (add_message d t r s c blocks)))"
  by (auto simp: add_message_def list_dates_def Let_def
      dest: append_to_block_dates append_to_block_None split: option.splits)

lemma delete_date_distinct:
  "distinct (list_dates blocks) \<Longrightarrow> distinct (list_dates (snd (delete_date d blocks)))"
  by (simp add: delete_date_def list_dates_def distinct_map_filter)

lemma delete_message_dates:
  "list_dates (snd (delete_message d i blocks)) = list_dates blocks"
  by (induction blocks) (auto simp: list_dates_def split: prod.splits)

lemma edit_message_dates:
  "list_dates (snd (edit_message d i updates blocks)) = list_dates blocks"
  by (induction blocks) (auto simp: list_dates_def split: prod.splits)

lemma perform_dates_distinct:
  "load_dates_distinct c \<Longrightarrow> distinct (list_dates blocks) \<Longrightarrow>
   distinct (list_dates (snd (perform c blocks)))"
  by (cases c)
    (simp_all add: load_def add_message_distinct delete_date_distinct delete_message_dates
      edit_message_dates)

lemma run_dates_distinct:
  "\<forall>c\<in>set calls. load_dates_distinct c \<Longrightarrow> distinct (list_dates blocks) \<Longrightarrow>
   distinct (list_dates (run calls blocks))"
  by (induction calls arbitrary: blocks) (simp_all add: perform_dates_distinct)

lemma calls1_loads: "\<forall>c\<in>set calls1. load_dates_distinct c"
  by (simp add: calls1_def load_spaced_text load_broken_text list_dates_def)

lemma run_calls1: "list_dates (run calls1 []) = [''d'', ''d2'']"
proof -
  have "list_dates (run calls1 []) =
      list_dates (run [AddMessage ''d'' ''09:00:00'' ''Bob'' ''Alice'' ''hello'',
           AddMessage ''d2'' ''09:00:00'' ''Bob'' ''Alice'' ''hello'',
           AddMessage ''d'' ''10:00:00'' ''Alice'' ''Bob'' ''hi'',
           EditMessage ''d'' 0 [(''content'', ''bye'')],
           DeleteMessage ''d'' 1,
           DeleteDate ''d3''] [\<lparr>date = ''d'', messages = []\<rparr>])"
    by (simp add: calls1_def load_broken_text)
  also have "\<dots> = [''d'', ''d2'']"
    by code_simp
  finally show ?thesis .
qed

text \<open>
  C4, amended. Every store reached from the empty store by calls of \<^verbatim>\<open>load\<close>,
  \<^verbatim>\<open>add_message\<close>, \<^verbatim>\<open>delete_date\<close>, \<^verbatim>\<open>delete_message\<close> and \<^verbatim>\<open>edit_message\<close>, failed
  calls included, has at most one block for a date, provided every text that is loaded
  is one for which the blocks \<^verbatim>\<open>load\<close> leaves in the store have distinct dates.
  \<^verbatim>\<open>load\<close> makes one block for each header and end marker and compares no dates, so
  for a text that repeats a date the proviso fails.
\<close>

theorem dates_distinct_invariant:
  assumes "\<forall>c\<in>set calls. load_dates_distinct c"
  shows "distinct (list_dates (run calls []))"
  using run_dates_distinct [OF assms, of "[]"] by (simp add: list_dates_def)

theorem dates_distinct_invariant_witness:
  "snd (load spaced_text []) =
     [\<lparr>date = ''2024-01-01'', messages =
        [\<lparr>time = ''09:00:00'', receiver = ''Bob'', sender = ''Alice'', content = ''hello''\<rparr>]\<rparr>] \<and>
   snd (load broken_text []) = [\<lparr>date = ''d'', messages = []\<rparr>] \<and>
   list_dates (run calls1 []) = [''d'', ''d2''] \<and>
   distinct (list_dates (run calls1 []))"
proof -
  have "distinct (list_dates (run calls1 []))"
    by (rule dates_distinct_invariant [OF calls1_loads])
  moreover have "snd (load spaced_text []) =
     [\<lparr>date = ''2024-01-01'', messages =
        [\<lparr>time = ''09:00:00'', receiver = ''Bob'', sender = ''Alice'', content = ''hello''\<rparr>]\<rparr>]"
    by (simp only: load_spaced_text snd_conv)
  moreover have "snd (load broken_text []) = [\<lparr>date = ''d'', messages = []\<rparr>]"
    by (simp only: load_broken_text snd_conv)
  ultimately show ?thesis
    using run_calls1 by blast
qed

text \<open>
  As the claim is worded, \<^verbatim>\<open>load\<close> is one of the operations. On a text that has the same
  date in two headers it succeeds with two blocks of that date.
\<close>

theorem load_repeated_date_counterexample:
  "run [Load repeated_date_text] [] =
     [\<lparr>date = ''d'', messages = []\<rparr>, \<lparr>date = ''d'', messages = []\<rparr>] \<and>
   \<not> distinct (list_dates (run [Load repeated_date_text] []))"
proof -
  have "load repeated_date_text [] =
     (Inr (), [\<lparr>date = ''d'', messages = []\<rparr>, \<lparr>date = ''d'', messages = []\<rparr>])"
    unfolding load_def repeated_date_text_def by code_simp
  then show ?thesis
    by (simp add: list_dates_def)
qed

subsection \<open>The date of a loaded block\<close>

text \<open>
  C5. The claim asks every block that \<^verbatim>\<open>load\<close> produces to have a non-empty date. The
  date group of the header pattern is \<^verbatim>\<open>.*?\<close>, and \<^verbatim>\<open>load\<close> checks the four groups of
  a message line but not the date: a header with nothing between \<^verbatim>\<open>-* \<close> and \<^verbatim>\<open> *-\<close> is
  accepted, and the block has the empty string as its date.
\<close>

theorem load_accepts_empty_date:
  "load empty_date_text blocks = (Inr (), [\<lparr>date = [], messages = []\<rparr>])"
  unfolding load_def empty_date_text_def by code_simp

subsection \<open>The message pattern on a line that \<^verbatim>\<open>dumps\<close> writes\<close>

lemma lazy_dots_skip:
  "LF \<notin> set p \<Longrightarrow> \<forall>p1 p2. p = p1 @ p2 \<and> p2 \<noteq> [] \<longrightarrow> k (acc @ p1) (p2 @ q) = None \<Longrightarrow>
   lazy_dots k acc (p @ q) = lazy_dots k (acc @ p) q"
proof (induction p arbitrary: acc)
  case Nil
  then show ?case by simp
next
  case (Cons c p)
  from Cons.prems(1) have c: "c \<noteq> LF" and p: "LF \<notin> set p"
    by auto
  from Cons.prems(2) have "k (acc @ []) ((c # p) @ q) = None"
    by blast
  then have here: "k acc (c # p @ q) = None"
    by simp
  have "\<forall>p1 p2. p = p1 @ p2 \<and> p2 \<noteq> [] \<longrightarrow> k ((acc @ [c]) @ p1) (p2 @ q) = None"
  proof (intro allI impI)
    fix p1 p2
    assume "p = p1 @ p2 \<and> p2 \<noteq> []"
    then have "c # p = (c # p1) @ p2 \<and> p2 \<noteq> []"
      by simp
    with Cons.prems(2) have "k (acc @ c # p1) (p2 @ q) = None"
      by blast
    then show "k ((acc @ [c]) @ p1) (p2 @ q) = None"
      by simp
  qed
  from Cons.IH [OF p this] here c show ?case
    by simp
qed

lemma lazy_dots_here: "k acc q = Some r \<Longrightarrow> lazy_dots k acc q = Some r"
  by (cases q) simp_all

lemma lazy_dots1_exact:
  assumes "p \<noteq> []" and "LF \<notin> set p"
    and "\<forall>p1 p2. p = p1 @ p2 \<and> p1 \<noteq> [] \<and> p2 \<noteq> [] \<longrightarrow> k p1 (p2 @ q) = None"
    and "k p q = Some r"
  shows "lazy_dots1 k (p @ q) = Some r"
proof -
  from assms(1) obtain c p' where p: "p = c # p'"
    by (cases p) auto
  with assms(2) have c: "c \<noteq> LF" and p': "LF \<notin> set p'"
    by auto
  have "\<forall>p1 p2. p' = p1 @ p2 \<and> p2 \<noteq> [] \<longrightarrow> k ([c] @ p1) (p2 @ q) = None"
  proof (intro allI impI)
    fix p1 p2
    assume "p' = p1 @ p2 \<and> p2 \<noteq> []"
    with p have "p = (c # p1) @ p2 \<and> c # p1 \<noteq> [] \<and> p2 \<noteq> []"
      by simp
    with assms(3) have "k (c # p1) (p2 @ q) = None"
      by blast
    then show "k ([c] @ p1) (p2 @ q) = None"
      by simp
  qed
  from lazy_dots_skip [OF p' this] have "lazy_dots k [c] (p' @ q) = lazy_dots k ([c] @ p') q"
    .
  also have "\<dots> = Some r"
    using assms(4) p by (simp add: lazy_dots_here)
  finally show ?thesis
    using p c by (simp add: lazy_dots1_def)
qed

lemma lit_None: "\<not> prefix p s \<Longrightarrow> lit p k s = None"
  by (simp add: lit_def)

lemma prefix_within:
  assumes "prefix d (a @ x)" and "length d \<le> length a"
  shows "prefix d a"
  using assms by (auto simp: prefix_append)

lemma clear_of_split:
  assumes "clear_of delim x" and "x = p1 @ p2" and "p1 \<noteq> []" and "p2 \<noteq> []"
  shows "\<not> prefix delim (p2 @ delim @ rest)"
proof
  assume "prefix delim (p2 @ delim @ rest)"
  then have "prefix delim ((p2 @ delim) @ rest)"
    by simp
  then have pre: "prefix delim (p2 @ delim)"
    by (rule prefix_within) simp
  from assms(2-4) have "length p1 \<in> {1..<length x}" and "drop (length p1) x = p2"
    by (auto simp: Suc_le_eq)
  with assms(1) have "\<not> prefix delim (p2 @ delim)"
    by (auto simp: clear_of_def)
  with pre show False
    by simp
qed

lemma content_tail_None:
  assumes "p2 \<noteq> []"
  shows "lit '' #^&*-'' (eos x) (p2 @ '' #^&*-'') = None"
proof (rule ccontr)
  assume "lit '' #^&*-'' (eos x) (p2 @ '' #^&*-'') \<noteq> None"
  then obtain r where "lit '' #^&*-'' (eos x) (p2 @ '' #^&*-'') = Some r"
    by blast
  then obtain s1 where 1: "p2 @ '' #^&*-'' = '' #^&*-'' @ s1" and k: "eos x s1 = Some r"
    by (rule lit_Some)
  from eos_Some [OF k] have "s1 = [] \<or> s1 = [LF]"
    by simp
  then show False
  proof
    assume "s1 = []"
    with 1 have "length (p2 @ '' #^&*-'') = length '' #^&*-''"
      by simp
    with assms show False by simp
  next
    assume "s1 = [LF]"
    with 1 have "last (p2 @ '' #^&*-'') = last ('' #^&*-'' @ [LF])"
      by simp
    then show False by (simp add: LF_def)
  qed
qed

lemma MESSAGE_RE_match_message_line:
  assumes t: "time_shape (time m)"
    and r: "receiver m \<noteq> []" "LF \<notin> set (receiver m)" "clear_of '' #$ *# '' (receiver m)"
    and s: "sender m \<noteq> []" "LF \<notin> set (sender m)" "clear_of '' #* content -*&^# '' (sender m)"
    and c: "content m \<noteq> []" "LF \<notin> set (content m)"
  shows "MESSAGE_RE_match (message_line m) = Some m"
proof -
  let ?K3 = "\<lambda>t r s. (\<lambda>c. lit '' #^&*-'' (eos \<lparr>time = t, receiver = r, sender = s, content = c\<rparr>))"
  let ?K2 = "\<lambda>t r. (\<lambda>s. lit '' #* content -*&^# '' (lazy_dots1 (?K3 t r s)))"
  let ?K1 = "\<lambda>t. (\<lambda>r. lit '' #$ *# '' (lazy_dots1 (?K2 t r)))"
  have m: "\<lparr>time = time m, receiver = receiver m, sender = sender m, content = content m\<rparr> = m"
    by (cases m) simp
  have c3: "lazy_dots1 (?K3 t' r' s') (content m @ '' #^&*-'') =
      Some \<lparr>time = t', receiver = r', sender = s', content = content m\<rparr>" for t' r' s'
  proof (rule lazy_dots1_exact [OF c])
    show "\<forall>p1 p2. content m = p1 @ p2 \<and> p1 \<noteq> [] \<and> p2 \<noteq> [] \<longrightarrow>
        ?K3 t' r' s' p1 (p2 @ '' #^&*-'') = None"
      by (simp add: content_tail_None)
    show "?K3 t' r' s' (content m) '' #^&*-'' =
        Some \<lparr>time = t', receiver = r', sender = s', content = content m\<rparr>"
      by (simp add: lit_def eos_def)
  qed
  have c2: "lazy_dots1 (?K2 t' r') (sender m @ '' #* content -*&^# '' @ content m @ '' #^&*-'') =
      Some \<lparr>time = t', receiver = r', sender = sender m, content = content m\<rparr>" for t' r'
  proof (rule lazy_dots1_exact [OF s(1,2)])
    show "\<forall>p1 p2. sender m = p1 @ p2 \<and> p1 \<noteq> [] \<and> p2 \<noteq> [] \<longrightarrow>
        ?K2 t' r' p1 (p2 @ '' #* content -*&^# '' @ content m @ '' #^&*-'') = None"
      using clear_of_split [OF s(3)] by (auto intro: lit_None)
    have "?K2 t' r' (sender m) ('' #* content -*&^# '' @ content m @ '' #^&*-'') =
        lazy_dots1 (?K3 t' r' (sender m)) (content m @ '' #^&*-'')"
      by (rule lit_append)
    then show "?K2 t' r' (sender m) ('' #* content -*&^# '' @ content m @ '' #^&*-'') =
        Some \<lparr>time = t', receiver = r', sender = sender m, content = content m\<rparr>"
      by (simp only: c3)
  qed
  have c1: "lazy_dots1 (?K1 t')
      (receiver m @ '' #$ *# '' @ sender m @ '' #* content -*&^# '' @ content m @ '' #^&*-'') =
      Some \<lparr>time = t', receiver = receiver m, sender = sender m, content = content m\<rparr>" for t'
  proof (rule lazy_dots1_exact [OF r(1,2)])
    show "\<forall>p1 p2. receiver m = p1 @ p2 \<and> p1 \<noteq> [] \<and> p2 \<noteq> [] \<longrightarrow>
        ?K1 t' p1 (p2 @ '' #$ *# '' @ sender m @ '' #* content -*&^# '' @ content m @ '' #^&*-'') = None"
      using clear_of_split [OF r(3)] by (auto intro: lit_None)
    have "?K1 t' (receiver m)
        ('' #$ *# '' @ sender m @ '' #* content -*&^# '' @ content m @ '' #^&*-'') =
        lazy_dots1 (?K2 t' (receiver m)) (sender m @ '' #* content -*&^# '' @ content m @ '' #^&*-'')"
      by (rule lit_append)
    then show "?K1 t' (receiver m)
        ('' #$ *# '' @ sender m @ '' #* content -*&^# '' @ content m @ '' #^&*-'') =
        Some \<lparr>time = t', receiver = receiver m, sender = sender m, content = content m\<rparr>"
      by (simp only: c2)
  qed
  have "MESSAGE_RE_match (message_line m) =
      time_group (\<lambda>t. lit '' #@ $# '' (lazy_dots1 (?K1 t)))
        (time m @ '' #@ $# '' @ receiver m @ '' #$ *# '' @ sender m @
         '' #* content -*&^# '' @ content m @ '' #^&*-'')"
    unfolding MESSAGE_RE_match_def message_line_def by (rule lit_append)
  also have "\<dots> = lit '' #@ $# '' (lazy_dots1 (?K1 (time m)))
        ('' #@ $# '' @ receiver m @ '' #$ *# '' @ sender m @
         '' #* content -*&^# '' @ content m @ '' #^&*-'')"
    by (rule time_group_append [OF t])
  also have "\<dots> = lazy_dots1 (?K1 (time m))
        (receiver m @ '' #$ *# '' @ sender m @ '' #* content -*&^# '' @ content m @ '' #^&*-'')"
    by (rule lit_append)
  also have "\<dots> = Some \<lparr>time = time m, receiver = receiver m, sender = sender m, content = content m\<rparr>"
    by (rule c1)
  finally show ?thesis
    by (simp only: m)
qed

subsection \<open>\<^verbatim>\<open>load\<close> after \<^verbatim>\<open>dumps\<close> of a store built by \<^verbatim>\<open>add_message\<close>\<close>

lemma clear_of_no_hash:
  assumes "CHR ''#'' \<notin> set x" and "c0 \<noteq> CHR ''#''"
  shows "clear_of (c0 # CHR ''#'' # rest) x"
  unfolding clear_of_def
proof (intro ballI notI)
  fix i
  assume i: "i \<in> {1..<length x}"
    and pre: "prefix (c0 # CHR ''#'' # rest) (drop i x @ c0 # CHR ''#'' # rest)"
  from i obtain y ys where d: "drop i x = y # ys"
    by (cases "drop i x") auto
  then have sub: "set ys \<subseteq> set x"
    using set_drop_subset [of i x] by auto
  show False
  proof (cases ys)
    case Nil
    with pre d assms(2) show False by simp
  next
    case (Cons z zs)
    with pre d have "z = CHR ''#''" by simp
    with Cons sub assms(1) show False by auto
  qed
qed

lemma is_digit_plain: "is_digit c \<Longrightarrow> \<not> is_linebreak c"
  by (auto simp: is_digit_def is_linebreak_def)

lemma time_shape_plain:
  assumes "time_shape t"
  shows "plain t"
proof -
  from assms have len: "length t = 8"
    and dig: "\<forall>i\<in>{0, 1, 3, 4, 6, 7}. is_digit (t ! i)"
    and col: "t ! 2 = CHR '':''" "t ! 5 = CHR '':''"
    by (simp_all add: time_shape_def)
  have "\<not> is_linebreak (t ! i)" if "i < 8" for i
  proof -
    from that consider "i \<in> {0, 1, 3, 4, 6, 7}" | "i = 2" | "i = 5"
      by fastforce
    then show ?thesis
    proof cases
      case 1
      with dig have "is_digit (t ! i)"
        by blast
      then show ?thesis
        by (rule is_digit_plain)
    next
      case 2
      with col(1) show ?thesis
        by (simp add: is_linebreak_def)
    next
      case 3
      with col(2) show ?thesis
        by (simp add: is_linebreak_def)
    qed
  qed
  with len show ?thesis
    by (auto simp: plain_def in_set_conv_nth)
qed

lemma dumpable_good_message:
  assumes "dumpable d t r s c" and "r \<noteq> []" and "s \<noteq> []" and "c \<noteq> []"
  shows "good_message \<lparr>time = t, receiver = r, sender = s, content = c\<rparr>"
proof -
  let ?m = "\<lparr>time = t, receiver = r, sender = s, content = c\<rparr>"
  from assms(1) have p: "plain t" "plain r" "plain s" "plain c"
    and ts: "time_shape t"
    and cl: "clear_of '' #$ *# '' r" "clear_of '' #* content -*&^# '' s"
    by (simp_all add: dumpable_def time_shape_plain)
  have "MESSAGE_RE_match (message_line ?m) = Some ?m"
    by (rule MESSAGE_RE_match_message_line)
      (simp_all add: ts cl assms(2-) p plain_no_LF)
  moreover have "plain (message_line ?m)"
    using p by (simp add: message_line_def is_linebreak_def)
  ultimately show ?thesis
    by (simp add: good_message_def)
qed

lemma append_to_block_good:
  "append_to_block d m bs = Some bs' \<Longrightarrow> good_message m \<Longrightarrow> \<forall>b\<in>set bs. good_block b \<Longrightarrow>
   \<forall>b\<in>set bs'. good_block b"
  by (induction bs arbitrary: bs') (auto simp: good_block_def split: if_splits)

lemma add_message_good:
  assumes "dumpable d t r s c" and "\<forall>b\<in>set bs. good_block b"
  shows "\<forall>b\<in>set (snd (add_message d t r s c bs)). good_block b"
proof (cases "first_empty [(''date'', d), (''time'', t), (''receiver'', r), (''sender'', s),
    (''content'', c)]")
  case (Some field)
  with assms(2) show ?thesis
    by (simp add: add_message_def)
next
  case None
  then have ne: "r \<noteq> []" "s \<noteq> []" "c \<noteq> []"
    by (auto split: if_splits)
  let ?m = "\<lparr>time = t, receiver = r, sender = s, content = c\<rparr>"
  have m: "good_message ?m"
    by (rule dumpable_good_message [OF assms(1) ne])
  from assms(1) have d: "plain d"
    by (simp add: dumpable_def)
  show ?thesis
  proof (cases "append_to_block d ?m bs")
    case None
    with \<open>first_empty _ = None\<close> assms(2) m d show ?thesis
      by (simp add: add_message_def good_block_def)
  next
    case (Some bs')
    from append_to_block_good [OF Some m assms(2)] Some \<open>first_empty _ = None\<close> show ?thesis
      by (simp add: add_message_def)
  qed
qed

lemma run_addable_good:
  "\<forall>c\<in>set calls. addable c \<Longrightarrow> \<forall>b\<in>set bs. good_block b \<Longrightarrow>
   \<forall>b\<in>set (run calls bs). good_block b"
proof (induction calls arbitrary: bs)
  case Nil
  then show ?case by simp
next
  case (Cons c calls)
  from Cons.prems(1) have c: "addable c" and rest: "\<forall>c\<in>set calls. addable c"
    by simp_all
  from c obtain d t r s x where call: "c = AddMessage d t r s x" and "dumpable d t r s x"
    by (cases c) simp_all
  from add_message_good [OF this(2) Cons.prems(2)] call
  have "\<forall>b\<in>set (snd (perform c bs)). good_block b"
    by simp
  from Cons.IH [OF rest this] show ?case
    by simp
qed

lemma calls2_addable: "\<forall>c\<in>set calls2. addable c"
  by (simp add: calls2_def dumpable_def clear_of_no_hash time_shape_def is_digit_def
      is_linebreak_def)

lemma run_calls2:
  "run calls2 [] =
     [\<lparr>date = ''d1'', messages =
         [\<lparr>time = ''09:00:00'', receiver = ''Bob'', sender = ''Alice'', content = ''hello #1''\<rparr>,
          \<lparr>time = ''10:00:00'', receiver = ''Alice'', sender = ''Bob'', content = ''bye''\<rparr>]\<rparr>,
      \<lparr>date = ''d2'', messages =
         [\<lparr>time = ''09:30:00'', receiver = ''Bob'', sender = ''Carol'', content = ''hi''\<rparr>]\<rparr>]"
  unfolding calls2_def by code_simp

text \<open>
  C2, amended. For every store built from the empty store by calls of \<^verbatim>\<open>add_message\<close>
  whose five arguments are non-empty and, in addition, \<open>dumpable\<close> (the time has the
  shape of two digits, a colon, two digits, a colon, two digits; no argument holds a line
  boundary; the delimiter that follows the receiver, and the one that follows the sender,
  does not begin inside it, which is so in particular when they hold no \<^verbatim>\<open>#\<close>),
  \<^verbatim>\<open>load\<close> of \<^verbatim>\<open>dumps\<close> of the store succeeds and gives the blocks of the store.
\<close>

theorem add_message_round_trip:
  assumes "\<forall>c\<in>set calls. addable c"
  shows "load (dumps (run calls [])) blocks = (Inr (), run calls [])"
proof -
  from run_addable_good [OF assms, of "[]"] have "\<forall>b\<in>set (run calls []). good_block b"
    by simp
  then show ?thesis
    by (rule load_dumps)
qed

theorem add_message_round_trip_witness:
  "load (dumps (run calls2 [])) store1 =
     (Inr (),
      [\<lparr>date = ''d1'', messages =
         [\<lparr>time = ''09:00:00'', receiver = ''Bob'', sender = ''Alice'', content = ''hello #1''\<rparr>,
          \<lparr>time = ''10:00:00'', receiver = ''Alice'', sender = ''Bob'', content = ''bye''\<rparr>]\<rparr>,
       \<lparr>date = ''d2'', messages =
         [\<lparr>time = ''09:30:00'', receiver = ''Bob'', sender = ''Carol'', content = ''hi''\<rparr>]\<rparr>])"
  using add_message_round_trip [OF calls2_addable, of store1] by (simp only: run_calls2)

text \<open>
  As the claim is worded, non-empty arguments are enough. \<^verbatim>\<open>add_message\<close> accepts the
  time \<^verbatim>\<open>x\<close>; the line \<^verbatim>\<open>dumps\<close> writes for the message matches none of the three
  patterns, and \<^verbatim>\<open>load\<close> fails on it.
\<close>

theorem add_message_round_trip_counterexample:
  "run [AddMessage ''d'' ''x'' ''r'' ''s'' ''c''] [] =
     [\<lparr>date = ''d'', messages =
        [\<lparr>time = ''x'', receiver = ''r'', sender = ''s'', content = ''c''\<rparr>]\<rparr>] \<and>
   load (dumps (run [AddMessage ''d'' ''x'' ''r'' ''s'' ''c''] [])) [] =
     (Inl (InvalidLine ''@# x #@ $# r #$ *# s #* content -*&^# c #^&*-''), [])"
proof -
  have "run [AddMessage ''d'' ''x'' ''r'' ''s'' ''c''] [] =
     [\<lparr>date = ''d'', messages =
        [\<lparr>time = ''x'', receiver = ''r'', sender = ''s'', content = ''c''\<rparr>]\<rparr>]"
    by code_simp
  moreover have "load (dumps [\<lparr>date = ''d'', messages =
        [\<lparr>time = ''x'', receiver = ''r'', sender = ''s'', content = ''c''\<rparr>]\<rparr>]) [] =
     (Inl (InvalidLine ''@# x #@ $# r #$ *# s #* content -*&^# c #^&*-''), [])"
    by code_simp
  ultimately show ?thesis
    by simp
qed

subsection \<open>\<^verbatim>\<open>search_messages\<close>\<close>

lemma str_contains_iff: "str_contains s t \<longleftrightarrow> sublist t s"
proof (induction s)
  case Nil
  then show ?case by simp
next
  case (Cons c cs)
  then show ?case
    by (simp add: sublist_Cons_right)
qed

lemma differs_iff: "differs f x \<longleftrightarrow> \<not> (case f of None \<Rightarrow> True | Some v \<Rightarrow> v \<noteq> [] \<longrightarrow> x = v)"
  by (simp add: differs_def split: option.splits)

lemma lacks_iff: "lacks f x \<longleftrightarrow> \<not> (case f of None \<Rightarrow> True | Some v \<Rightarrow> sublist v x)"
  by (auto simp: lacks_def str_contains_iff split: option.splits)

lemma search_block_filter:
  "search_block sf rf tf d ms results =
     results @ map (annotate d) (filter (selected sf rf tf) ms)"
  by (induction ms arbitrary: results) (simp_all add: differs_iff lacks_iff selected_def)

lemma search_blocks_concat:
  "search_blocks sf rf tf blocks results =
     results @ concat (map (\<lambda>b. map (annotate (date b)) (filter (selected sf rf tf) (messages b))) blocks)"
  by (induction blocks arbitrary: results) (simp_all add: search_block_filter)

text \<open>
  C6, amended. For every store and every choice of filters, \<^verbatim>\<open>search_messages\<close> returns
  exactly the messages for which every filter that is given and is not the empty string
  holds (sender and receiver by equality, text by occurrence in the content), each with
  the date of its block, in the order of the blocks and of the messages in them; when no
  message qualifies the result is the empty list. A filter given as the empty string
  counts as omitted.
\<close>

theorem search_messages_exact:
  "search_messages sf rf tf blocks =
     concat (map (\<lambda>b. map (annotate (date b)) (filter (selected sf rf tf) (messages b))) blocks) \<and>
   ((\<forall>b\<in>set blocks. \<forall>m\<in>set (messages b). \<not> selected sf rf tf m) \<longrightarrow>
      search_messages sf rf tf blocks = [])"
proof -
  have eq: "search_messages sf rf tf blocks =
     concat (map (\<lambda>b. map (annotate (date b)) (filter (selected sf rf tf) (messages b))) blocks)"
    by (simp add: search_messages_def search_blocks_concat)
  moreover have "search_messages sf rf tf blocks = []"
    if "\<forall>b\<in>set blocks. \<forall>m\<in>set (messages b). \<not> selected sf rf tf m"
  proof -
    from that have "\<forall>b\<in>set blocks. filter (selected sf rf tf) (messages b) = []"
      by (simp add: filter_empty_conv)
    then show ?thesis
      unfolding eq by simp
  qed
  ultimately show ?thesis
    by blast
qed

theorem search_messages_exact_witness:
  "search_messages (Some ''Alice'') None (Some ''e'') store2 =
     [\<lparr>hit_date = ''d1'', hit_time = ''09:00:00'', hit_receiver = ''Bob'',
       hit_sender = ''Alice'', hit_content = ''hello''\<rparr>,
      \<lparr>hit_date = ''d2'', hit_time = ''10:00:00'', hit_receiver = ''Bob'',
       hit_sender = ''Alice'', hit_content = ''bye''\<rparr>] \<and>
   search_messages (Some ''Carol'') None None store2 = []"
proof -
  have none: "\<forall>b\<in>set store2. \<forall>m\<in>set (messages b). \<not> selected (Some ''Carol'') None None m"
    by (simp add: store2_def selected_def)
  have "search_messages (Some ''Carol'') None None store2 = []"
    using search_messages_exact [of "Some ''Carol''" None None store2] none by blast
  moreover have "search_messages (Some ''Alice'') None (Some ''e'') store2 =
     [\<lparr>hit_date = ''d1'', hit_time = ''09:00:00'', hit_receiver = ''Bob'',
       hit_sender = ''Alice'', hit_content = ''hello''\<rparr>,
      \<lparr>hit_date = ''d2'', hit_time = ''10:00:00'', hit_receiver = ''Bob'',
       hit_sender = ''Alice'', hit_content = ''bye''\<rparr>]"
    by (simp add: search_messages_def store2_def differs_def lacks_def annotate_def)
  ultimately show ?thesis
    by simp
qed

text \<open>
  As the claim is worded, a sender filter that is given as the empty string would have
  to select the messages whose sender is the empty string. The code returns the message
  of \<open>store1\<close>, whose sender is not empty.
\<close>

theorem search_messages_empty_filter_counterexample:
  "search_messages (Some []) None None store1 =
     [\<lparr>hit_date = ''d2'', hit_time = ''t'', hit_receiver = ''r'',
       hit_sender = ''s'', hit_content = ''c''\<rparr>] \<and> ''s'' \<noteq> []"
  by (simp add: search_messages_def store1_def differs_def lacks_def annotate_def)

end
